theory Spec2Isabelle
  imports Main "HOL-Library.Word" "HOL-Library.AList"
begin

section \<open>VFS utilities (host/src/vfs/utils.ts)\<close>

subsection \<open>Write-flag classification\<close>

text \<open>
  \<^verbatim>\<open>isWriteFlag(flags) = /[wa+]/.test(flags)\<close>: the regular expression is an unanchored
  character class, so the test succeeds exactly when some character of the flag string
  is one of \<open>w\<close>, \<open>a\<close>, \<open>+\<close>.
\<close>

definition isWriteFlag :: "string \<Rightarrow> bool" where
  "isWriteFlag flags = list_ex (\<lambda>c. c = CHR ''w'' \<or> c = CHR ''a'' \<or> c = CHR ''+'') flags"

subsection \<open>Synthetic directory entries and stats\<close>

text \<open>\<^verbatim>\<open>class VirtualDirent\<close>: one public field and seven classification methods.\<close>

record VirtualDirent =
  name :: string

definition isFile :: "VirtualDirent \<Rightarrow> bool" where
  "isFile d = False"

definition isDirectory :: "VirtualDirent \<Rightarrow> bool" where
  "isDirectory d = True"

definition isSymbolicLink :: "VirtualDirent \<Rightarrow> bool" where
  "isSymbolicLink d = False"

definition isBlockDevice :: "VirtualDirent \<Rightarrow> bool" where
  "isBlockDevice d = False"

definition isCharacterDevice :: "VirtualDirent \<Rightarrow> bool" where
  "isCharacterDevice d = False"

definition isFIFO :: "VirtualDirent \<Rightarrow> bool" where
  "isFIFO d = False"

definition isSocket :: "VirtualDirent \<Rightarrow> bool" where
  "isSocket d = False"

definition new_VirtualDirent :: "string \<Rightarrow> VirtualDirent" where
  "new_VirtualDirent n = \<lparr> name = n \<rparr>"

text \<open>
  The object filled in by \<^verbatim>\<open>createVirtualDirStats\<close>. The four \<^verbatim>\<open>Date\<close> fields are
  represented by the millisecond timestamp they are constructed from.
\<close>

record Stats =
  dev :: int
  mode :: int
  nlink :: int
  uid :: int
  gid :: int
  rdev :: int
  blksize :: int
  ino :: int
  size_stat :: int
  blocks :: int
  atimeMs :: int
  mtimeMs :: int
  ctimeMs :: int
  birthtimeMs :: int
  atime :: int
  mtime :: int
  ctime :: int
  birthtime :: int

text \<open>
  \<^verbatim>\<open>createVirtualDirStats()\<close> reads the clock once (\<^verbatim>\<open>Date.now()\<close>); the reading is the
  parameter \<open>now\<close>. The octal literal \<^verbatim>\<open>0o040755\<close> is \<open>4 * 8^4 + 7 * 8^2 + 5 * 8 + 5\<close>.
\<close>

definition createVirtualDirStats :: "int \<Rightarrow> Stats" where
  "createVirtualDirStats now =
     \<lparr> dev = 0, mode = 4 * 8 ^ 4 + 7 * 8 ^ 2 + 5 * 8 + 5, nlink = 1, uid = 0, gid = 0,
       rdev = 0, blksize = 4096, ino = 0, size_stat = 4096, blocks = 8,
       atimeMs = now, mtimeMs = now, ctimeMs = now, birthtimeMs = now,
       atime = now, mtime = now, ctime = now, birthtime = now \<rparr>"

text \<open>
  \<^verbatim>\<open>formatVirtualEntries\<close> returns either the names themselves or one dirent per name.
\<close>

datatype entries = Names "string list" | Dirents "VirtualDirent list"

definition formatVirtualEntries :: "string list \<Rightarrow> bool \<Rightarrow> entries" where
  "formatVirtualEntries es withTypes =
     (if \<not> withTypes then Names es else Dirents (map new_VirtualDirent es))"


section \<open>Read-only provider adapter (host/src/vfs/readonly-virtual.ts)\<close>

datatype errno = EROFS | ENOENT | ENOTDIR | EOTHER nat

text \<open>
  Modelled from the spec: \<^verbatim>\<open>createErrnoError(errno, syscall, path)\<close> lives in
  \<^verbatim>\<open>./errors\<close>, which is not among the sources. The spec says VFS failures are mapped to
  OS-standard error codes and always attached to the failing path, so the error value
  carries the code, the name of the failing call and the path.
\<close>

datatype errno_error = ErrnoError errno string string

definition createErrnoError :: "errno \<Rightarrow> string \<Rightarrow> string \<Rightarrow> errno_error" where
  "createErrnoError code syscall path = ErrnoError code syscall path"

text \<open>
  The abstract members a concrete provider supplies. Each may itself throw, so it returns
  a sum. Only \<^verbatim>\<open>openReadonlySync\<close> is reachable from the operations modelled here.
\<close>

record 'h backend =
  openReadonlySync :: "string \<Rightarrow> string \<Rightarrow> int option \<Rightarrow> errno_error + 'h"

text \<open>The record of calls that reached the backend during one adapter call.\<close>

datatype backend_call = OpenReadonlySync string string "int option"

type_synonym 'a traced = "(errno_error + 'a) \<times> backend_call list"

text \<open>A settled promise: what the caller of an \<^verbatim>\<open>async\<close> method observes.\<close>

datatype 'a promise = Fulfilled 'a | Rejected errno_error

definition async :: "'a traced \<Rightarrow> 'a promise \<times> backend_call list" where
  "async r = (case fst r of Inl e \<Rightarrow> Rejected e | Inr v \<Rightarrow> Fulfilled v, snd r)"

definition openSync :: "'h backend \<Rightarrow> string \<Rightarrow> string \<Rightarrow> int option \<Rightarrow> 'h traced" where
  "openSync be entryPath flags md =
     (if isWriteFlag flags then (Inl (createErrnoError EROFS ''open'' entryPath), [])
      else (openReadonlySync be entryPath flags md, [OpenReadonlySync entryPath flags md]))"

definition open_async :: "'h backend \<Rightarrow> string \<Rightarrow> string \<Rightarrow> int option \<Rightarrow> 'h promise \<times> backend_call list" where
  "open_async be entryPath flags md = async (openSync be entryPath flags md)"

definition mkdirSync :: "'h backend \<Rightarrow> string \<Rightarrow> unit traced" where
  "mkdirSync be entryPath = (Inl (createErrnoError EROFS ''mkdir'' entryPath), [])"

definition mkdir :: "'h backend \<Rightarrow> string \<Rightarrow> unit promise \<times> backend_call list" where
  "mkdir be entryPath = async (mkdirSync be entryPath)"

definition rmdirSync :: "'h backend \<Rightarrow> string \<Rightarrow> unit traced" where
  "rmdirSync be entryPath = (Inl (createErrnoError EROFS ''rmdir'' entryPath), [])"

definition rmdir :: "'h backend \<Rightarrow> string \<Rightarrow> unit promise \<times> backend_call list" where
  "rmdir be entryPath = async (rmdirSync be entryPath)"

definition unlinkSync :: "'h backend \<Rightarrow> string \<Rightarrow> unit traced" where
  "unlinkSync be entryPath = (Inl (createErrnoError EROFS ''unlink'' entryPath), [])"

definition unlink :: "'h backend \<Rightarrow> string \<Rightarrow> unit promise \<times> backend_call list" where
  "unlink be entryPath = async (unlinkSync be entryPath)"

definition renameSync :: "'h backend \<Rightarrow> string \<Rightarrow> string \<Rightarrow> unit traced" where
  "renameSync be oldPath newPath = (Inl (createErrnoError EROFS ''rename'' oldPath), [])"

definition rename :: "'h backend \<Rightarrow> string \<Rightarrow> string \<Rightarrow> unit promise \<times> backend_call list" where
  "rename be oldPath newPath = async (renameSync be oldPath newPath)"

definition symlinkSync :: "'h backend \<Rightarrow> string \<Rightarrow> string \<Rightarrow> unit traced" where
  "symlinkSync be target entryPath = (Inl (createErrnoError EROFS ''symlink'' entryPath), [])"

definition symlink :: "'h backend \<Rightarrow> string \<Rightarrow> string \<Rightarrow> unit promise \<times> backend_call list" where
  "symlink be target entryPath = async (symlinkSync be target entryPath)"


section \<open>Frame codec (host/src/exec.ts)\<close>

type_synonym byte = "8 word"
type_synonym Buffer = "byte list"

definition MAX_FRAME :: nat where
  "MAX_FRAME = 4 * 1024 * 1024"

text \<open>
  \<^verbatim>\<open>buf.readUInt32BE(0)\<close>: the first four bytes, most significant first. Node raises a
  \<^verbatim>\<open>RangeError\<close> on a shorter buffer, which is \<open>None\<close> here; the reader only calls it
  after checking the length.
\<close>

fun readUInt32BE :: "Buffer \<Rightarrow> nat option" where
  "readUInt32BE (b0 # b1 # b2 # b3 # rest) =
     Some (unat b0 * 2 ^ 24 + unat b1 * 2 ^ 16 + unat b2 * 2 ^ 8 + unat b3)"
| "readUInt32BE _ = None"

text \<open>
  \<^verbatim>\<open>header = Buffer.alloc(4); header.writeUInt32BE(n, 0)\<close>: a \<^verbatim>\<open>RangeError\<close> (\<open>None\<close>)
  when \<open>n\<close> does not fit in 32 bits.
\<close>

definition writeUInt32BE :: "nat \<Rightarrow> Buffer option" where
  "writeUInt32BE n =
     (if n < 2 ^ 32
      then Some [of_nat (n div 2 ^ 24), of_nat (n div 2 ^ 16), of_nat (n div 2 ^ 8), of_nat n]
      else None)"

text \<open>
  The bytes written for one message by the \<^verbatim>\<open>connect\<close> handler:
  \<^verbatim>\<open>Buffer.concat([header, payload])\<close>.
\<close>

definition encode_frame :: "Buffer \<Rightarrow> Buffer option" where
  "encode_frame payload = map_option (\<lambda>header. header @ payload) (writeUInt32BE (length payload))"

text \<open>\<^verbatim>\<open>class FrameReader\<close>: the two private fields.\<close>

record FrameReader =
  buffer :: Buffer
  expectedLength :: "nat option"

definition new_FrameReader :: FrameReader where
  "new_FrameReader = \<lparr> buffer = [], expectedLength = None \<rparr>"

text \<open>\<^verbatim>\<open>new Error(`Frame too large: ${n}`)\<close>\<close>

datatype push_error = FrameTooLarge nat

text \<open>
  How one call of \<^verbatim>\<open>push\<close> ends: it returns, it throws its own error, or the callback does
  not return (it throws or ends the process). The callback works on a state \<open>'s\<close> of the
  caller; \<open>Inl x\<close> is a callback that does not return.
\<close>

datatype ('x, 's) push_result = Returned 's | Threw push_error 's | Aborted 'x

text \<open>
  The \<^verbatim>\<open>while (true)\<close> loop of \<^verbatim>\<open>push\<close>, on the two fields. The first equation is an
  iteration that starts with \<^verbatim>\<open>expectedLength === null\<close>: it returns on fewer than four
  bytes, otherwise reads the length, cuts the four bytes off, throws above the ceiling and
  else goes on to the length check with the length set. The second equation is that length
  check and the delivery of the frame (\<^verbatim>\<open>slice(0, n)\<close> is \<open>take n\<close>, \<^verbatim>\<open>slice(n)\<close> is
  \<open>drop n\<close>), after which the loop starts over with \<^verbatim>\<open>expectedLength = null\<close>. The fields
  keep what was assigned before a throw.
\<close>

function pump :: "(Buffer \<Rightarrow> 's \<Rightarrow> 'x + 's) \<Rightarrow> Buffer \<Rightarrow> nat option \<Rightarrow> 's
    \<Rightarrow> FrameReader \<times> ('x, 's) push_result" where
  "pump onFrame buf None s =
     (case readUInt32BE buf of
        None \<Rightarrow> (\<lparr> buffer = buf, expectedLength = None \<rparr>, Returned s)
      | Some n \<Rightarrow>
          if n > MAX_FRAME
          then (\<lparr> buffer = drop 4 buf, expectedLength = Some n \<rparr>, Threw (FrameTooLarge n) s)
          else pump onFrame (drop 4 buf) (Some n) s)"
| "pump onFrame buf (Some n) s =
     (if length buf < n then (\<lparr> buffer = buf, expectedLength = Some n \<rparr>, Returned s)
      else case onFrame (take n buf) s of
             Inl x \<Rightarrow> (\<lparr> buffer = drop n buf, expectedLength = None \<rparr>, Aborted x)
           | Inr s' \<Rightarrow> pump onFrame (drop n buf) None s')"
  by pat_completeness auto
termination
  apply (relation "measure (\<lambda>(f, buf, e, s). 2 * length buf + (case e of None \<Rightarrow> 0 | Some _ \<Rightarrow> 1))")
    apply simp
   apply (erule readUInt32BE.elims; simp)
  apply simp
  done

declare pump.simps [simp del]

text \<open>\<^verbatim>\<open>push(chunk, onFrame)\<close>: append the chunk, then run the loop.\<close>

definition push :: "(Buffer \<Rightarrow> 's \<Rightarrow> 'x + 's) \<Rightarrow> FrameReader \<Rightarrow> Buffer \<Rightarrow> 's
    \<Rightarrow> FrameReader \<times> ('x, 's) push_result" where
  "push onFrame r chunk s = pump onFrame (buffer r @ chunk) (expectedLength r) s"

text \<open>
  A sequence of chunks arriving one \<^verbatim>\<open>data\<close> event after the other at the same reader;
  nothing more is pushed once a call did not return.
\<close>

fun feed :: "(Buffer \<Rightarrow> 's \<Rightarrow> 'x + 's) \<Rightarrow> FrameReader \<Rightarrow> Buffer list \<Rightarrow> 's
    \<Rightarrow> FrameReader \<times> ('x, 's) push_result" where
  "feed onFrame r [] s = (r, Returned s)"
| "feed onFrame r (c # cs) s =
     (case push onFrame r c s of
        (r', Returned s') \<Rightarrow> feed onFrame r' cs s'
      | (r', Threw e s') \<Rightarrow> (r', Threw e s')
      | (r', Aborted x) \<Rightarrow> (r', Aborted x))"

text \<open>A callback that records every frame it is called with, in order, and returns.\<close>

definition collect :: "Buffer \<Rightarrow> Buffer list \<Rightarrow> unit + Buffer list" where
  "collect frame acc = Inr (acc @ [frame])"

text \<open>
  The callback called on frames one after the other, for as long as it returns: the state
  after the last frame, or what the first call that did not return left.
\<close>

fun deliver :: "(Buffer \<Rightarrow> 's \<Rightarrow> 'x + 's) \<Rightarrow> Buffer list \<Rightarrow> 's \<Rightarrow> 'x + 's" where
  "deliver onFrame [] s = Inr s"
| "deliver onFrame (frame # frames) s =
     (case onFrame frame s of
        Inl x \<Rightarrow> Inl x
      | Inr s' \<Rightarrow> deliver onFrame frames s')"

text \<open>A reader at rest: \<^verbatim>\<open>push\<close> has returned and waits for more bytes.\<close>

definition idle :: "FrameReader \<Rightarrow> bool" where
  "idle r = (case expectedLength r of
               None \<Rightarrow> length (buffer r) < 4
             | Some n \<Rightarrow> length (buffer r) < n)"


section \<open>Path normalization (host/src/vfs/utils.ts)\<close>

text \<open>
  \<^verbatim>\<open>path.posix.normalize\<close> is Node's library function, not code of this repository. The
  model follows Node's algorithm (\<^verbatim>\<open>lib/path.js\<close>, \<^verbatim>\<open>normalizeString\<close>): the path is read
  segment by segment, a segment being a maximal run of characters other than \<open>/\<close>; empty
  segments and \<open>.\<close> are dropped; \<open>..\<close> removes the last kept segment unless there is none
  or it is itself \<open>..\<close>, in which case \<open>..\<close> is kept for a relative path and dropped for an
  absolute one; the kept segments are joined by \<open>/\<close>.
\<close>

text \<open>The segments of a path, as \<^verbatim>\<open>path.split("/")\<close> gives them.\<close>

fun segments :: "string \<Rightarrow> string list" where
  "segments [] = [[]]"
| "segments (c # cs) =
     (if c = CHR ''/'' then [] # segments cs
      else (case segments cs of [] \<Rightarrow> [[c]] | seg # segs \<Rightarrow> (c # seg) # segs))"

text \<open>\<^verbatim>\<open>segs.join("/")\<close>\<close>

fun join :: "string list \<Rightarrow> string" where
  "join [] = []"
| "join [seg] = seg"
| "join (seg # segs) = seg @ CHR ''/'' # join segs"

text \<open>One segment against the segments kept so far (last kept segment first).\<close>

definition consume :: "bool \<Rightarrow> string list \<Rightarrow> string \<Rightarrow> string list" where
  "consume allowAboveRoot res seg =
     (if seg = [] \<or> seg = ''.'' then res
      else if seg = ''..'' then
        (case res of
           [] \<Rightarrow> if allowAboveRoot then [''..''] else []
         | lastSeg # below \<Rightarrow>
             if lastSeg \<noteq> ''..'' then below
             else if allowAboveRoot then ''..'' # res else res)
      else seg # res)"

definition normalizeString :: "string \<Rightarrow> bool \<Rightarrow> string" where
  "normalizeString path allowAboveRoot =
     join (rev (foldl (consume allowAboveRoot) [] (segments path)))"

definition startsWith_slash :: "string \<Rightarrow> bool" where
  "startsWith_slash s = (case s of [] \<Rightarrow> False | c # _ \<Rightarrow> c = CHR ''/'')"

definition endsWith_slash :: "string \<Rightarrow> bool" where
  "endsWith_slash s = (s \<noteq> [] \<and> last s = CHR ''/'')"

text \<open>
  \<^verbatim>\<open>path.posix.normalize(path)\<close>: \<open>.\<close> for the empty string; otherwise the normalized
  segments, with \<open>/\<close> in front for an absolute path and one \<open>/\<close> behind when the input
  ended in one; when no segment is left, \<open>/\<close> for an absolute path and \<open>.\<close> or \<open>./\<close> for a
  relative one.
\<close>

definition posix_normalize :: "string \<Rightarrow> string" where
  "posix_normalize path =
     (if path = [] then ''.''
      else
        let isAbsolute = startsWith_slash path;
            trailingSeparator = endsWith_slash path;
            p = normalizeString path (\<not> isAbsolute)
        in if p = [] then (if isAbsolute then ''/'' else if trailingSeparator then ''./'' else ''.'')
           else
             let p' = (if trailingSeparator then p @ ''/'' else p)
             in if isAbsolute then CHR ''/'' # p' else p')"

text \<open>\<^verbatim>\<open>normalizeVfsPath\<close>, from the source; \<^verbatim>\<open>slice(0, -1)\<close> is \<open>butlast\<close>.\<close>

definition normalizeVfsPath :: "string \<Rightarrow> string" where
  "normalizeVfsPath inputPath =
     (let normalized = posix_normalize inputPath;
          normalized = (if \<not> startsWith_slash normalized then CHR ''/'' # normalized else normalized);
          normalized = (if length normalized > 1 \<and> endsWith_slash normalized
                        then butlast normalized else normalized)
      in normalized)"

text \<open>Vocabulary for the properties of normalized paths.\<close>

definition slashfree :: "string \<Rightarrow> bool" where
  "slashfree seg = (CHR ''/'' \<notin> set seg)"

definition okseg :: "string \<Rightarrow> bool" where
  "okseg seg = (seg \<noteq> [] \<and> slashfree seg \<and> seg \<noteq> ''.'')"

text \<open>The segments \<^verbatim>\<open>normalizeString\<close> keeps for a path.\<close>

definition resolved :: "string \<Rightarrow> string list" where
  "resolved s = rev (foldl (consume (\<not> startsWith_slash s)) [] (segments s))"

text \<open>A path none of whose segments is \<open>.\<close> or \<open>..\<close>.\<close>

definition dot_segment_free :: "string \<Rightarrow> bool" where
  "dot_segment_free p = (''.'' \<notin> set (segments p) \<and> ''..'' \<notin> set (segments p))"


section \<open>Decoded values (host/src/exec.ts, normalize)\<close>















section \<open>The command-line client (host/src/exec.ts, main)\<close>

text \<open>
  A number inside a template literal (\<^verbatim>\<open>`... ${signal}`\<close>) is written in decimal. The
  numbers that occur here are signal numbers, integers far below the size (21 digits) from
  which JavaScript writes a number with an exponent.
\<close>

definition digit :: "nat \<Rightarrow> char" where
  "digit d = ''0123456789'' ! d"

function show_nat :: "nat \<Rightarrow> string" where
  "show_nat n = (if n < 10 then [digit n] else show_nat (n div 10) @ [digit (n mod 10)])"
  by pat_completeness auto
termination
  by (relation "measure id") auto

declare show_nat.simps [simp del]

definition show_int :: "int \<Rightarrow> string" where
  "show_int i = (if i < 0 then CHR ''-'' # show_nat (nat (- i)) else show_nat (nat i))"

text \<open>
  \<^verbatim>\<open>type IncomingMessage = ExecOutput | ExecResponse | ErrorResponse\<close>, with the fields
  \<^verbatim>\<open>id\<close> and those of \<^verbatim>\<open>p\<close>. The handler reads \<^verbatim>\<open>exit_code ?? 1\<close> and tests
  \<^verbatim>\<open>signal !== undefined\<close>, so both may be absent. Exit code and signal are integers, as
  the type and the protocol (\<^verbatim>\<open>exit_code:<int>\<close>, \<^verbatim>\<open>signal?:<int>\<close>) have them. \<open>OtherMessage\<close>
  is a message whose \<^verbatim>\<open>t\<close> is none of the three: no branch of the handler applies to it.
\<close>

datatype IncomingMessage =
    ExecOutput int string Buffer
  | ExecResponse int "int option" "int option"
  | ErrorResponse int string string
  | OtherMessage

text \<open>
  The errors that can leave an event handler of \<^verbatim>\<open>main\<close>: the one \<^verbatim>\<open>push\<close> throws, one
  thrown inside the frame callback before its branches (by the decoder, or by reading a field
  the decoded value does not have), and the \<^verbatim>\<open>RangeError\<close> of \<^verbatim>\<open>writeUInt32BE\<close>.
\<close>

datatype thrown = PushError push_error | CallbackError string | HeaderRangeError

text \<open>
  What the process has written: raw bytes (\<^verbatim>\<open>process.stdout.write(data)\<close>), a line
  (\<^verbatim>\<open>console.log\<close>, \<^verbatim>\<open>console.error\<close>), or the report Node prints for an uncaught error (the
  place in the source, the error with its message, the stack: Node's text, represented by
  the error it reports); the frames given to \<^verbatim>\<open>socket.write\<close>; whether \<^verbatim>\<open>socket.end()\<close> was
  called.
\<close>

datatype written = Bytes Buffer | Line string | Uncaught thrown

record io =
  stdout :: "written list"
  stderr :: "written list"
  sent :: "Buffer list"
  ended :: bool

text \<open>
  The process: running, with its reader, or ended, with the exit status its parent sees.
\<close>

datatype proc = Running FrameReader io | Exited nat io

text \<open>
  \<^verbatim>\<open>process.exit(code)\<close> for an integer \<open>code\<close>: a POSIX system keeps the lowest eight
  bits of the code as the status of the process, so 256 ends it with status 0 and -1 with
  status 255.
\<close>

definition exit_status :: "int \<Rightarrow> nat" where
  "exit_status code = nat (code mod 256)"

definition console_log :: "string \<Rightarrow> io \<Rightarrow> io" where
  "console_log line c = c\<lparr> stdout := stdout c @ [Line line] \<rparr>"

definition console_error :: "string \<Rightarrow> io \<Rightarrow> io" where
  "console_error line c = c\<lparr> stderr := stderr c @ [Line line] \<rparr>"

definition socket_end :: "io \<Rightarrow> io" where
  "socket_end c = c\<lparr> ended := True \<rparr>"

text \<open>
  An exception that leaves an event handler is not caught anywhere in \<^verbatim>\<open>main\<close>: Node reports
  the error on stderr and ends the process with status 1.
\<close>

definition uncaught :: "thrown \<Rightarrow> io \<Rightarrow> nat \<times> io" where
  "uncaught err c = (1, c\<lparr> stderr := stderr c @ [Uncaught err] \<rparr>)"

text \<open>
  The three branches of the frame callback on the decoded message. \<open>Inl (status, c)\<close> is
  \<^verbatim>\<open>process.exit\<close>, which does not return: the process has ended with that status.
\<close>

definition onMessage :: "IncomingMessage \<Rightarrow> io \<Rightarrow> (nat \<times> io) + io" where
  "onMessage m c =
     (case m of
        ExecOutput i stream data \<Rightarrow>
          if stream = ''stdout'' then Inr (c\<lparr> stdout := stdout c @ [Bytes data] \<rparr>)
          else Inr (c\<lparr> stderr := stderr c @ [Bytes data] \<rparr>)
      | ExecResponse i exit_code signal \<Rightarrow>
          let code = (case exit_code of None \<Rightarrow> 1 | Some e \<Rightarrow> e);
              c = (case signal of
                     None \<Rightarrow> c
                   | Some s \<Rightarrow> console_error (''process exited due to signal '' @ show_int s) c)
          in Inl (exit_status code, socket_end c)
      | ErrorResponse i code message \<Rightarrow>
          Inl (exit_status 1, socket_end (console_error (''error '' @ code @ '': '' @ message) c))
      | OtherMessage \<Rightarrow> Inr c)"

text \<open>
  The frame callback. \<^verbatim>\<open>normalize(cbor.decodeFirstSync(frame)) as IncomingMessage\<close> is the
  parameter \<open>decode\<close>: the decoder is a library, and the cast checks nothing. \<open>Inr m\<close> is a
  decoded value that is a message \<open>m\<close>; \<open>Inl err\<close> is an error thrown before a branch is
  taken, by the decoder or by the callback reading a field of a value that is not an object
  of the expected shape.
\<close>

definition frame_callback :: "(Buffer \<Rightarrow> string + IncomingMessage) \<Rightarrow> Buffer \<Rightarrow> io \<Rightarrow> (nat \<times> io) + io" where
  "frame_callback decode frame c =
     (case decode frame of
        Inl err \<Rightarrow> Inl (uncaught (CallbackError err) c)
      | Inr m \<Rightarrow> onMessage m c)"

text \<open>The four socket events \<^verbatim>\<open>main\<close> listens to, and their handlers.\<close>

datatype event = Connect | Data Buffer | SocketError string | End

fun handle :: "(Buffer \<Rightarrow> string + IncomingMessage) \<Rightarrow> string \<Rightarrow> Buffer \<Rightarrow> proc \<Rightarrow> event \<Rightarrow> proc" where
  "handle decode sock payload (Exited status c) ev = Exited status c"
| "handle decode sock payload (Running r c) Connect =
     (let c = console_log (''connected to '' @ sock) c in
      case encode_frame payload of
        None \<Rightarrow> (case uncaught HeaderRangeError c of (status, c') \<Rightarrow> Exited status c')
      | Some bytes \<Rightarrow> Running r (c\<lparr> sent := sent c @ [bytes] \<rparr>))"
| "handle decode sock payload (Running r c) (Data chunk) =
     (case push (frame_callback decode) r chunk c of
        (r', Returned c') \<Rightarrow> Running r' c'
      | (r', Threw err c') \<Rightarrow>
          (case uncaught (PushError err) c' of (status, c'') \<Rightarrow> Exited status c'')
      | (r', Aborted (status, c')) \<Rightarrow> Exited status c')"
| "handle decode sock payload (Running r c) (SocketError msg) =
     Exited (exit_status 1) (console_error (''socket error: '' @ msg) c)"
| "handle decode sock payload (Running r c) End = Exited (exit_status 1) c"

text \<open>A run of the process over the events it receives, in order.\<close>

definition run :: "(Buffer \<Rightarrow> string + IncomingMessage) \<Rightarrow> string \<Rightarrow> Buffer \<Rightarrow> proc \<Rightarrow> event list \<Rightarrow> proc" where
  "run decode sock payload p evs = foldl (handle decode sock payload) p evs"

text \<open>The process after \<^verbatim>\<open>main\<close> has set up the socket and the reader.\<close>

definition main :: proc where
  "main = Running new_FrameReader \<lparr> stdout = [], stderr = [], sent = [], ended = False \<rparr>"


section \<open>The VM pool of the tests (host/test/helpers/vm-fixture.ts)\<close>

text \<open>
  JavaScript runs one piece of code at a time, to completion: an \<^verbatim>\<open>async\<close> function runs
  until its next \<^verbatim>\<open>await\<close> and is resumed later, after the awaited promise has settled.
  The module is modelled as a transition system whose steps are these pieces, over the
  state the pieces share. Any order of the enabled steps is allowed.
\<close>

text \<open>
  \<^verbatim>\<open>class Semaphore\<close>. A waiting \<^verbatim>\<open>resolve\<close> callback is represented by the number of
  the \<^verbatim>\<open>withVm\<close> invocation it resumes.
\<close>

record Semaphore =
  count :: nat
  queue :: "nat list"

definition new_Semaphore :: "nat \<Rightarrow> Semaphore" where
  "new_Semaphore n = \<lparr> count = n, queue = [] \<rparr>"

datatype grant = Granted | Queued

text \<open>
  \<^verbatim>\<open>acquire()\<close> up to its \<^verbatim>\<open>await\<close>: with a free count it takes one and its promise is
  resolved (\<open>Granted\<close>); otherwise the resolver is queued (\<open>Queued\<close>).
\<close>

definition acquire :: "nat \<Rightarrow> Semaphore \<Rightarrow> grant \<times> Semaphore" where
  "acquire t sem =
     (if count sem > 0 then (Granted, sem\<lparr> count := count sem - 1 \<rparr>)
      else (Queued, sem\<lparr> queue := queue sem @ [t] \<rparr>))"

text \<open>
  \<^verbatim>\<open>release()\<close>: the first queued resolver, if any, is called and the count stays; otherwise
  the count goes up. The result names the invocation that was woken.
\<close>

definition release :: "Semaphore \<Rightarrow> nat option \<times> Semaphore" where
  "release sem =
     (case queue sem of
        next # rest \<Rightarrow> (Some next, sem\<lparr> queue := rest \<rparr>)
      | [] \<Rightarrow> (None, sem\<lparr> count := count sem + 1 \<rparr>))"

text \<open>
  One call of \<^verbatim>\<open>VM.create(options)\<close>, the factory: the key it was made for and whether
  its promise is still pending, fulfilled or rejected. \<^verbatim>\<open>VM\<close> itself (\<^verbatim>\<open>src/vm\<close>) is not
  among the sources; all that is used of it is that \<^verbatim>\<open>create\<close> returns a promise. The
  \<^verbatim>\<open>VmEntry\<close> a successful creation yields, and the promise \<^verbatim>\<open>created\<close> for it, are
  identified by the position of the creation in the list of all creations.
\<close>

datatype creation_status = InFlight | Created | Failed

record creation =
  ckey :: string
  cstatus :: creation_status

text \<open>
  What \<^verbatim>\<open>getEntry\<close> returns: a promise already resolved with an existing entry, or one that
  follows the promise \<^verbatim>\<open>created\<close> of a creation.
\<close>

datatype entry_promise = Resolved nat | Awaiting nat

datatype outcome = Completed | Raised

text \<open>
  Where an invocation of \<^verbatim>\<open>withVm\<close> stands: at \<^verbatim>\<open>await getEntry(...)\<close>, at
  \<^verbatim>\<open>await entry.semaphore.acquire()\<close>, at \<^verbatim>\<open>await fn(entry.vm)\<close>, or finished (having
  returned the callback's result or thrown).
\<close>

datatype pc =
    AwaitEntry entry_promise
  | AwaitAcquire nat grant
  | InCallback nat
  | Done outcome

record task =
  tkey :: string
  tpc :: pc

text \<open>
  The module's state: the two maps \<^verbatim>\<open>pool\<close> and \<^verbatim>\<open>pending\<close>, every factory call so far,
  the semaphore of every entry made, and the invocations of \<^verbatim>\<open>withVm\<close>.
\<close>

record fixture =
  pool :: "string \<rightharpoonup> nat"
  pending :: "string \<rightharpoonup> nat"
  creations :: "creation list"
  vm_entries :: "nat \<rightharpoonup> Semaphore"
  tasks :: "nat \<rightharpoonup> task"

definition fixture_init :: fixture where
  "fixture_init = \<lparr> pool = Map.empty, pending = Map.empty, creations = [],
                    vm_entries = Map.empty, tasks = Map.empty \<rparr>"

text \<open>
  \<^verbatim>\<open>getEntry(key, options)\<close>, which runs without interruption: the pool entry if there is
  one, else the creation in flight if there is one, else a new factory call, whose promise
  is stored in \<^verbatim>\<open>pending\<close>. (The \<^verbatim>\<open>await\<close> inside the new creation suspends it right after
  the factory call, so \<^verbatim>\<open>pending.set\<close> comes before anything else.)
\<close>

definition getEntry :: "string \<Rightarrow> fixture \<Rightarrow> entry_promise \<times> fixture" where
  "getEntry key s =
     (case pool s key of
        Some existing \<Rightarrow> (Resolved existing, s)
      | None \<Rightarrow>
          (case pending s key of
             Some inFlight \<Rightarrow> (Awaiting inFlight, s)
           | None \<Rightarrow>
               let created = length (creations s) in
               (Awaiting created,
                s\<lparr> creations := creations s @ [\<lparr> ckey = key, cstatus = InFlight \<rparr>],
                   pending := (pending s)(key \<mapsto> created) \<rparr>)))"

text \<open>
  The rest of the creation, once the factory's promise has settled: on success the entry,
  with \<^verbatim>\<open>new Semaphore(1)\<close>, is put in the pool; in both cases \<^verbatim>\<open>finally\<close> deletes the key
  from \<^verbatim>\<open>pending\<close>.
\<close>

definition create_settles :: "nat \<Rightarrow> bool \<Rightarrow> fixture \<Rightarrow> fixture option" where
  "create_settles c ok s =
     (if c < length (creations s) \<and> cstatus (creations s ! c) = InFlight then
        let key = ckey (creations s ! c) in
        if ok then
          Some (s\<lparr> creations := (creations s)[c := \<lparr> ckey = key, cstatus = Created \<rparr>],
                  vm_entries := (vm_entries s)(c \<mapsto> new_Semaphore 1),
                  pool := (pool s)(key \<mapsto> c),
                  pending := (pending s)(key := None) \<rparr>)
        else
          Some (s\<lparr> creations := (creations s)[c := \<lparr> ckey = key, cstatus = Failed \<rparr>],
                  pending := (pending s)(key := None) \<rparr>)
      else None)"

text \<open>The state of a promise returned by \<^verbatim>\<open>getEntry\<close>.\<close>

datatype settled = Unsettled | Yields nat | Fails

definition promise_state :: "fixture \<Rightarrow> entry_promise \<Rightarrow> settled" where
  "promise_state s p =
     (case p of
        Resolved e \<Rightarrow> Yields e
      | Awaiting c \<Rightarrow>
          if c < length (creations s) then
            (case cstatus (creations s ! c) of
               InFlight \<Rightarrow> Unsettled
             | Created \<Rightarrow> Yields c
             | Failed \<Rightarrow> Fails)
          else Unsettled)"

definition set_pc :: "nat \<Rightarrow> pc \<Rightarrow> fixture \<Rightarrow> fixture" where
  "set_pc t p s =
     (case tasks s t of
        None \<Rightarrow> s
      | Some tk \<Rightarrow> s\<lparr> tasks := (tasks s)(t \<mapsto> tk\<lparr> tpc := p \<rparr>) \<rparr>)"

text \<open>
  \<^verbatim>\<open>withVm(key, options, fn)\<close> in four pieces. The call itself runs \<^verbatim>\<open>getEntry\<close> and stops
  at the first \<^verbatim>\<open>await\<close>.
\<close>

definition withVm_call :: "nat \<Rightarrow> string \<Rightarrow> fixture \<Rightarrow> fixture option" where
  "withVm_call t key s =
     (if tasks s t \<noteq> None then None
      else
        case getEntry key s of
          (p, s') \<Rightarrow> Some (s'\<lparr> tasks := (tasks s')(t \<mapsto> \<lparr> tkey = key, tpc = AwaitEntry p \<rparr>) \<rparr>))"

text \<open>
  Resumed with the entry, it calls \<^verbatim>\<open>acquire()\<close> and stops at the second \<^verbatim>\<open>await\<close>; when
  the creation failed, the first \<^verbatim>\<open>await\<close> throws, outside the \<^verbatim>\<open>try\<close>.
\<close>

definition withVm_entry :: "nat \<Rightarrow> fixture \<Rightarrow> fixture option" where
  "withVm_entry t s =
     (case tasks s t of
        Some tk \<Rightarrow>
          (case tpc tk of
             AwaitEntry p \<Rightarrow>
               (case promise_state s p of
                  Unsettled \<Rightarrow> None
                | Fails \<Rightarrow> Some (set_pc t (Done Raised) s)
                | Yields e \<Rightarrow>
                    (case vm_entries s e of
                       None \<Rightarrow> None
                     | Some sem \<Rightarrow>
                         (case acquire t sem of
                            (g, sem') \<Rightarrow>
                              Some (set_pc t (AwaitAcquire e g)
                                      (s\<lparr> vm_entries := (vm_entries s)(e \<mapsto> sem') \<rparr>)))))
           | _ \<Rightarrow> None)
      | None \<Rightarrow> None)"

text \<open>Resumed with the semaphore acquired, it calls the callback.\<close>

definition withVm_acquired :: "nat \<Rightarrow> fixture \<Rightarrow> fixture option" where
  "withVm_acquired t s =
     (case tasks s t of
        Some tk \<Rightarrow>
          (case tpc tk of
             AwaitAcquire e Granted \<Rightarrow> Some (set_pc t (InCallback e) s)
           | _ \<Rightarrow> None)
      | None \<Rightarrow> None)"

text \<open>
  When the callback's promise settles, fulfilled or rejected, \<^verbatim>\<open>finally\<close> releases the
  semaphore and \<^verbatim>\<open>withVm\<close> ends the same way.
\<close>

definition withVm_finally :: "nat \<Rightarrow> outcome \<Rightarrow> fixture \<Rightarrow> fixture option" where
  "withVm_finally t r s =
     (case tasks s t of
        Some tk \<Rightarrow>
          (case tpc tk of
             InCallback e \<Rightarrow>
               (case vm_entries s e of
                  None \<Rightarrow> None
                | Some sem \<Rightarrow>
                    (case release sem of
                       (woken, sem') \<Rightarrow>
                         let s1 = s\<lparr> vm_entries := (vm_entries s)(e \<mapsto> sem') \<rparr>;
                             s2 = (case woken of
                                     None \<Rightarrow> s1
                                   | Some n \<Rightarrow> set_pc n (AwaitAcquire e Granted) s1)
                         in Some (set_pc t (Done r) s2)))
           | _ \<Rightarrow> None)
      | None \<Rightarrow> None)"

text \<open>
  \<^verbatim>\<open>closeVm\<close> and \<^verbatim>\<open>closeAllVms\<close>, as far as the maps go (\<^verbatim>\<open>vm.stop()\<close> acts on the VM).
\<close>

definition closeVm :: "string \<Rightarrow> fixture \<Rightarrow> fixture" where
  "closeVm key s =
     (case pool s key of
        None \<Rightarrow> s\<lparr> pending := (pending s)(key := None) \<rparr>
      | Some entry \<Rightarrow> s\<lparr> pool := (pool s)(key := None), pending := (pending s)(key := None) \<rparr>)"

definition closeAllVms :: "fixture \<Rightarrow> fixture" where
  "closeAllVms s = s\<lparr> pool := Map.empty, pending := Map.empty \<rparr>"

text \<open>The steps, and runs of steps; a step that is not enabled gives \<open>None\<close>.\<close>

datatype pool_event =
    Call nat string
  | CreateSettles nat bool
  | GotEntry nat
  | Acquired nat
  | CallbackSettles nat outcome
  | CloseVm string
  | CloseAllVms

fun pool_step :: "pool_event \<Rightarrow> fixture \<Rightarrow> fixture option" where
  "pool_step (Call t key) s = withVm_call t key s"
| "pool_step (CreateSettles c ok) s = create_settles c ok s"
| "pool_step (GotEntry t) s = withVm_entry t s"
| "pool_step (Acquired t) s = withVm_acquired t s"
| "pool_step (CallbackSettles t r) s = withVm_finally t r s"
| "pool_step (CloseVm key) s = Some (closeVm key s)"
| "pool_step CloseAllVms s = Some (closeAllVms s)"

fun pool_run :: "pool_event list \<Rightarrow> fixture \<Rightarrow> fixture option" where
  "pool_run [] s = Some s"
| "pool_run (ev # evs) s = (case pool_step ev s of None \<Rightarrow> None | Some s' \<Rightarrow> pool_run evs s')"

text \<open>The steps that remove a key from the maps.\<close>

fun teardown :: "string \<Rightarrow> pool_event \<Rightarrow> bool" where
  "teardown k (CloseVm key) = (key = k)"
| "teardown k CloseAllVms = True"
| "teardown k _ = False"

text \<open>
  A key is at rest when no creation for it is in flight and every invocation of \<^verbatim>\<open>withVm\<close>
  for it has finished.
\<close>

definition at_rest :: "string \<Rightarrow> fixture \<Rightarrow> bool" where
  "at_rest k s \<longleftrightarrow>
     (\<forall>c < length (creations s).
        ckey (creations s ! c) = k \<longrightarrow> cstatus (creations s ! c) \<noteq> InFlight) \<and>
     (\<forall>t tk. tasks s t = Some tk \<and> tkey tk = k \<longrightarrow> (\<exists>r. tpc tk = Done r))"

text \<open>A run, from state \<open>s\<close>, in which the key is torn down only while it is at rest.\<close>

fun teardowns_at_rest :: "string \<Rightarrow> pool_event list \<Rightarrow> fixture \<Rightarrow> bool" where
  "teardowns_at_rest k [] s = True"
| "teardowns_at_rest k (ev # evs) s =
     ((teardown k ev \<longrightarrow> at_rest k s) \<and>
      (case pool_step ev s of
         None \<Rightarrow> True
       | Some s' \<Rightarrow> teardowns_at_rest k evs s'))"

text \<open>
  Vocabulary for the properties. An invocation holds the gate of an entry from the moment
  \<^verbatim>\<open>acquire\<close>'s promise is resolved until \<^verbatim>\<open>release\<close>; it waits while its resolver is queued.
\<close>

definition holds :: "fixture \<Rightarrow> nat \<Rightarrow> nat \<Rightarrow> bool" where
  "holds s e t =
     (case tasks s t of
        None \<Rightarrow> False
      | Some tk \<Rightarrow> tpc tk = AwaitAcquire e Granted \<or> tpc tk = InCallback e)"

definition waits :: "fixture \<Rightarrow> nat \<Rightarrow> nat \<Rightarrow> bool" where
  "waits s e t =
     (case tasks s t of
        None \<Rightarrow> False
      | Some tk \<Rightarrow> tpc tk = AwaitAcquire e Queued)"

text \<open>The invariants of the pool.\<close>

definition sem_ok :: "fixture \<Rightarrow> nat \<Rightarrow> Semaphore \<Rightarrow> bool" where
  "sem_ok s e sem \<longleftrightarrow>
     count sem \<le> 1 \<and>
     (count sem = 1 \<longrightarrow> (\<forall>t. \<not> holds s e t) \<and> queue sem = []) \<and>
     (count sem = 0 \<longrightarrow> (\<exists>t. holds s e t)) \<and>
     (\<forall>t1 t2. holds s e t1 \<longrightarrow> holds s e t2 \<longrightarrow> t1 = t2) \<and>
     distinct (queue sem) \<and>
     (\<forall>t. t \<in> set (queue sem) \<longleftrightarrow> waits s e t)"

definition gate_inv :: "fixture \<Rightarrow> bool" where
  "gate_inv s \<longleftrightarrow>
     (\<forall>e sem. vm_entries s e = Some sem \<longrightarrow> sem_ok s e sem) \<and>
     (\<forall>e t. holds s e t \<or> waits s e t \<longrightarrow> vm_entries s e \<noteq> None) \<and>
     (\<forall>e. vm_entries s e \<noteq> None \<longrightarrow>
          e < length (creations s) \<and> cstatus (creations s ! e) = Created)"

definition made :: "fixture \<Rightarrow> string \<Rightarrow> nat \<Rightarrow> bool" where
  "made s k e \<longleftrightarrow>
     e < length (creations s) \<and> ckey (creations s ! e) = k \<and> cstatus (creations s ! e) = Created"

definition pc_ok :: "fixture \<Rightarrow> string \<Rightarrow> pc \<Rightarrow> bool" where
  "pc_ok s k p =
     (case p of
        AwaitEntry (Resolved e) \<Rightarrow> made s k e
      | AwaitEntry (Awaiting c) \<Rightarrow> c < length (creations s) \<and> ckey (creations s ! c) = k
      | AwaitAcquire e g \<Rightarrow> made s k e
      | InCallback e \<Rightarrow> made s k e
      | Done r \<Rightarrow> True)"

definition table_inv :: "fixture \<Rightarrow> bool" where
  "table_inv s \<longleftrightarrow>
     (\<forall>k c. pending s k = Some c \<longrightarrow>
        c < length (creations s) \<and> ckey (creations s ! c) = k \<and>
        cstatus (creations s ! c) = InFlight) \<and>
     (\<forall>k e. pool s k = Some e \<longrightarrow> made s k e \<and> pending s k = None) \<and>
     (\<forall>t tk. tasks s t = Some tk \<longrightarrow> pc_ok s (tkey tk) (tpc tk))"

text \<open>
  What an unfinished invocation for key \<open>k\<close> has to do with the tables: the entry it has or
  will get is the one in the pool, or it waits for the creation that is pending for the
  key, or for one that has failed.
\<close>

definition current :: "fixture \<Rightarrow> string \<Rightarrow> pc \<Rightarrow> bool" where
  "current s k p =
     (case p of
        AwaitEntry (Resolved e) \<Rightarrow> pool s k = Some e
      | AwaitEntry (Awaiting c) \<Rightarrow>
          pending s k = Some c \<or> pool s k = Some c \<or>
          (c < length (creations s) \<and> cstatus (creations s ! c) = Failed)
      | AwaitAcquire e g \<Rightarrow> pool s k = Some e
      | InCallback e \<Rightarrow> pool s k = Some e
      | Done r \<Rightarrow> True)"

definition key_inv :: "string \<Rightarrow> fixture \<Rightarrow> bool" where
  "key_inv k s \<longleftrightarrow>
     (\<forall>c. c < length (creations s) \<and> ckey (creations s ! c) = k \<longrightarrow>
        (cstatus (creations s ! c) = InFlight \<longrightarrow> pending s k = Some c)) \<and>
     (\<forall>t tk. tasks s t = Some tk \<and> tkey tk = k \<longrightarrow> current s k (tpc tk))"

definition extends :: "fixture \<Rightarrow> fixture \<Rightarrow> bool" where
  "extends s s' \<longleftrightarrow>
     length (creations s) \<le> length (creations s') \<and>
     (\<forall>c < length (creations s).
        ckey (creations s' ! c) = ckey (creations s ! c) \<and>
        (cstatus (creations s ! c) \<noteq> InFlight \<longrightarrow>
           cstatus (creations s' ! c) = cstatus (creations s ! c)))"

definition pool_inv :: "fixture \<Rightarrow> bool" where
  "pool_inv s \<longleftrightarrow> gate_inv s \<and> table_inv s"

definition pc_next :: "fixture \<Rightarrow> pc \<Rightarrow> pc \<Rightarrow> bool" where
  "pc_next s p p' \<longleftrightarrow>
     (case p of
        AwaitEntry pr \<Rightarrow>
          (\<exists>e g. promise_state s pr = Yields e \<and> p' = AwaitAcquire e g) \<or>
          (promise_state s pr = Fails \<and> p' = Done Raised)
      | AwaitAcquire e g \<Rightarrow>
          (g = Queued \<and> p' = AwaitAcquire e Granted) \<or> (g = Granted \<and> p' = InCallback e)
      | InCallback e \<Rightarrow> (\<exists>r. p' = Done r)
      | Done r \<Rightarrow> False)"

text \<open>The number of factory calls made for a key so far.\<close>

definition factory_calls :: "string \<Rightarrow> fixture \<Rightarrow> nat" where
  "factory_calls k s = count_list (map ckey (creations s)) k"

definition awaiting :: "fixture \<Rightarrow> nat \<Rightarrow> string \<Rightarrow> nat \<Rightarrow> bool" where
  "awaiting s t k c \<longleftrightarrow> tasks s t = Some \<lparr> tkey = k, tpc = AwaitEntry (Awaiting c) \<rparr>"

definition uses_only :: "nat \<Rightarrow> pc \<Rightarrow> bool" where
  "uses_only c p =
     (case p of
        AwaitEntry (Resolved e) \<Rightarrow> e = c
      | AwaitEntry (Awaiting c') \<Rightarrow> c' = c
      | AwaitAcquire e g \<Rightarrow> e = c
      | InCallback e \<Rightarrow> e = c
      | Done r \<Rightarrow> True)"

text \<open>The invocations of \<^verbatim>\<open>withVm\<close> for a key that a run starts.\<close>

definition callers :: "string \<Rightarrow> pool_event list \<Rightarrow> nat set" where
  "callers k tr = {t. Call t k \<in> set tr}"

text \<open>
  No creation for the key that was started at position \<open>L\<close> or later has settled yet.
\<close>

definition still_in_flight :: "string \<Rightarrow> nat \<Rightarrow> fixture \<Rightarrow> bool" where
  "still_in_flight k L s \<longleftrightarrow>
     (\<forall>c. L \<le> c \<and> c < length (creations s) \<and> ckey (creations s ! c) = k \<longrightarrow>
          cstatus (creations s ! c) = InFlight)"

definition window_state :: "string \<Rightarrow> nat \<Rightarrow> nat \<Rightarrow> nat set \<Rightarrow> fixture \<Rightarrow> bool" where
  "window_state k n0 L T s \<longleftrightarrow>
     (T = {} \<longrightarrow> pool s k = None \<and> pending s k = None \<and> factory_calls k s = n0) \<and>
     (T \<noteq> {} \<longrightarrow>
        (\<exists>c. L \<le> c \<and> pending s k = Some c \<and> pool s k = None \<and>
             factory_calls k s = n0 + 1 \<and> (\<forall>t\<in>T. awaiting s t k c)))"

definition uses :: "fixture \<Rightarrow> nat \<Rightarrow> string \<Rightarrow> nat \<Rightarrow> bool" where
  "uses s t k c \<longleftrightarrow> (\<exists>tk. tasks s t = Some tk \<and> tkey tk = k \<and> uses_only c (tpc tk))"

definition cached_state :: "string \<Rightarrow> nat \<Rightarrow> nat \<Rightarrow> nat set \<Rightarrow> fixture \<Rightarrow> bool" where
  "cached_state k n1 c T s \<longleftrightarrow>
     pool s k = Some c \<and> factory_calls k s = n1 \<and> (\<forall>t\<in>T. uses s t k c)"

text \<open>An invocation that is inside its callback, with entry \<open>e\<close>.\<close>

definition in_callback :: "fixture \<Rightarrow> nat \<Rightarrow> string \<Rightarrow> nat \<Rightarrow> bool" where
  "in_callback s t k e \<longleftrightarrow> tasks s t = Some \<lparr> tkey = k, tpc = InCallback e \<rparr>"


section \<open>Properties\<close>

lemma isWriteFlag_iff:
  "isWriteFlag flags \<longleftrightarrow>
     CHR ''w'' \<in> set flags \<or> CHR ''a'' \<in> set flags \<or> CHR ''+'' \<in> set flags"
  by (auto simp: isWriteFlag_def list_ex_iff)

text \<open>
  Claim C1. Every mutating operation of the read-only adapter (mkdir, rmdir, unlink,
  rename, symlink; synchronous and asynchronous form) fails with an EROFS error and makes
  no backend call, whatever the backend is. An open (either form) whose flag string
  contains \<open>w\<close>, \<open>a\<close> or \<open>+\<close> fails the same way, again with no backend call; an open
  whose flag string contains none of them makes exactly one backend call, to
  \<^verbatim>\<open>openReadonlySync\<close> with the same arguments, and settles with whatever that call
  produced.
\<close>

theorem readonly_adapter_rejects_writes:
  fixes be :: "'h backend"
  shows
  "mkdirSync be p = (Inl (ErrnoError EROFS ''mkdir'' p), []) \<and>
   mkdir be p = (Rejected (ErrnoError EROFS ''mkdir'' p), []) \<and>
   rmdirSync be p = (Inl (ErrnoError EROFS ''rmdir'' p), []) \<and>
   rmdir be p = (Rejected (ErrnoError EROFS ''rmdir'' p), []) \<and>
   unlinkSync be p = (Inl (ErrnoError EROFS ''unlink'' p), []) \<and>
   unlink be p = (Rejected (ErrnoError EROFS ''unlink'' p), []) \<and>
   renameSync be p q = (Inl (ErrnoError EROFS ''rename'' p), []) \<and>
   rename be p q = (Rejected (ErrnoError EROFS ''rename'' p), []) \<and>
   symlinkSync be q p = (Inl (ErrnoError EROFS ''symlink'' p), []) \<and>
   symlink be q p = (Rejected (ErrnoError EROFS ''symlink'' p), []) \<and>
   (CHR ''w'' \<in> set flags \<or> CHR ''a'' \<in> set flags \<or> CHR ''+'' \<in> set flags \<longrightarrow>
      openSync be p flags md = (Inl (ErrnoError EROFS ''open'' p), []) \<and>
      open_async be p flags md = (Rejected (ErrnoError EROFS ''open'' p), [])) \<and>
   (CHR ''w'' \<notin> set flags \<and> CHR ''a'' \<notin> set flags \<and> CHR ''+'' \<notin> set flags \<longrightarrow>
      openSync be p flags md = (openReadonlySync be p flags md, [OpenReadonlySync p flags md]) \<and>
      snd (open_async be p flags md) = [OpenReadonlySync p flags md] \<and>
      fst (open_async be p flags md) =
        (case openReadonlySync be p flags md of Inl e \<Rightarrow> Rejected e | Inr h \<Rightarrow> Fulfilled h))"
  by (simp add: mkdirSync_def mkdir_def rmdirSync_def rmdir_def unlinkSync_def unlink_def
      renameSync_def rename_def symlinkSync_def symlink_def openSync_def open_async_def
      async_def createErrnoError_def isWriteFlag_iff)

theorem readonly_adapter_rejects_writes_witness:
  "openSync \<lparr> openReadonlySync = (\<lambda>p f m. Inr (7::nat)) \<rparr> ''/etc/hosts'' ''r+'' None
     = (Inl (ErrnoError EROFS ''open'' ''/etc/hosts''), []) \<and>
   openSync \<lparr> openReadonlySync = (\<lambda>p f m. Inr (7::nat)) \<rparr> ''/etc/hosts'' ''r'' None
     = (Inr 7, [OpenReadonlySync ''/etc/hosts'' ''r'' None]) \<and>
   unlink \<lparr> openReadonlySync = (\<lambda>p f m. Inr (7::nat)) \<rparr> ''/etc/hosts''
     = (Rejected (ErrnoError EROFS ''unlink'' ''/etc/hosts''), [])"
  using readonly_adapter_rejects_writes
          [of "\<lparr> openReadonlySync = (\<lambda>p f m. Inr (7::nat)) \<rparr>" "''/etc/hosts''" "''x''" "''r+''" None]
        readonly_adapter_rejects_writes
          [of "\<lparr> openReadonlySync = (\<lambda>p f m. Inr (7::nat)) \<rparr>" "''/etc/hosts''" "''x''" "''r''" None]
  by simp

text \<open>
  Claim C10. A synthesized directory entry is a directory and nothing else, for every
  name; the synthesized stats carry mode \<^verbatim>\<open>0o040755\<close> (decimal 16877), size 4096, one
  link and owner/group 0, whatever the clock reads; and without \<^verbatim>\<open>withTypes\<close> the
  entry names come back unchanged.
\<close>

theorem virtual_dirent_and_stats:
  "isDirectory (new_VirtualDirent n) \<and>
   \<not> isFile (new_VirtualDirent n) \<and>
   \<not> isSymbolicLink (new_VirtualDirent n) \<and>
   \<not> isBlockDevice (new_VirtualDirent n) \<and>
   \<not> isCharacterDevice (new_VirtualDirent n) \<and>
   \<not> isFIFO (new_VirtualDirent n) \<and>
   \<not> isSocket (new_VirtualDirent n) \<and>
   name (new_VirtualDirent n) = n \<and>
   mode (createVirtualDirStats now) = 16877 \<and>
   size_stat (createVirtualDirStats now) = 4096 \<and>
   nlink (createVirtualDirStats now) = 1 \<and>
   uid (createVirtualDirStats now) = 0 \<and>
   gid (createVirtualDirStats now) = 0 \<and>
   formatVirtualEntries es False = Names es"
  by (simp add: isDirectory_def isFile_def isSymbolicLink_def isBlockDevice_def
      isCharacterDevice_def isFIFO_def isSocket_def new_VirtualDirent_def
      createVirtualDirStats_def formatVirtualEntries_def)

lemma be32_digits:
  fixes n :: nat
  assumes "n < 2 ^ 32"
  shows "n div 2 ^ 24 mod 256 * 2 ^ 24 + n div 2 ^ 16 mod 256 * 2 ^ 16
           + n div 2 ^ 8 mod 256 * 2 ^ 8 + n mod 256 = n"
proof -
  define a where "a = n div 256"
  define b where "b = a div 256"
  define c where "c = b div 256"
  have n: "n = a * 256 + n mod 256" by (simp add: a_def)
  have a: "a = b * 256 + a mod 256" by (simp add: b_def)
  have b: "b = c * 256 + b mod 256" by (simp add: c_def)
  have d8: "n div 2 ^ 8 = a" by (simp add: a_def)
  have d16: "n div 2 ^ 16 = b"
    by (simp add: a_def b_def div_mult2_eq [symmetric])
  have d24: "n div 2 ^ 24 = c"
    by (simp add: a_def b_def c_def div_mult2_eq [symmetric])
  have "c < 256" using assms unfolding d24 [symmetric] by (simp add: less_mult_imp_div_less)
  then have c: "c mod 256 = c" by simp
  have "c * 2 ^ 24 + b mod 256 * 2 ^ 16 + a mod 256 * 2 ^ 8 + n mod 256 = n"
    using n a b by simp
  then show ?thesis by (simp only: d8 d16 d24 c)
qed

lemma u32_roundtrip: "writeUInt32BE n = Some h \<Longrightarrow> readUInt32BE (h @ rest) = Some n"
  using be32_digits [of n]
  by (auto simp: writeUInt32BE_def unat_of_nat split: if_splits)

lemma u32_length: "writeUInt32BE n = Some h \<Longrightarrow> length h = 4"
  by (auto simp: writeUInt32BE_def split: if_splits)




lemma readUInt32BE_None_iff: "readUInt32BE buf = None \<longleftrightarrow> length buf < 4"
  by (induction buf rule: readUInt32BE.induct) auto

lemma readUInt32BE_append:
  "readUInt32BE buf = Some n \<Longrightarrow> readUInt32BE (buf @ c) = Some n"
  by (induction buf rule: readUInt32BE.induct) auto

lemma readUInt32BE_Some_length: "readUInt32BE buf = Some n \<Longrightarrow> 4 \<le> length buf"
  by (induction buf rule: readUInt32BE.induct) auto

lemma pump_append:
  "pump f (buf @ c) e s =
     (case pump f buf e s of
        (r, Returned s') \<Rightarrow> pump f (buffer r @ c) (expectedLength r) s'
      | (r, Threw err s') \<Rightarrow> (r\<lparr> buffer := buffer r @ c \<rparr>, Threw err s')
      | (r, Aborted x) \<Rightarrow> (r\<lparr> buffer := buffer r @ c \<rparr>, Aborted x))"
proof (induction f buf e s rule: pump.induct)
  case (1 onFrame buf s)
  show ?case
  proof (cases "readUInt32BE buf")
    case None
    then show ?thesis by (simp add: pump.simps(1) [of onFrame buf])
  next
    case (Some n)
    note len = readUInt32BE_Some_length [OF Some]
    note app = readUInt32BE_append [OF Some, of c]
    show ?thesis
    proof (cases "n > MAX_FRAME")
      case True
      with Some app len show ?thesis
        by (simp add: pump.simps(1) [of onFrame buf] pump.simps(1) [of onFrame "buf @ c"])
    next
      case False
      with Some app len "1.IH" [OF Some False] show ?thesis
        by (simp add: pump.simps(1) [of onFrame buf] pump.simps(1) [of onFrame "buf @ c"])
    qed
  qed
next
  case (2 onFrame buf n s)
  show ?case
  proof (cases "length buf < n")
    case True
    then show ?thesis by (simp add: pump.simps(2) [of onFrame buf])
  next
    case False
    show ?thesis
    proof (cases "onFrame (take n buf) s")
      case (Inl x)
      with False show ?thesis
        by (simp add: pump.simps(2) [of onFrame buf] pump.simps(2) [of onFrame "buf @ c"])
    next
      case (Inr s')
      with False "2.IH" [OF False Inr] show ?thesis
        by (simp add: pump.simps(2) [of onFrame buf] pump.simps(2) [of onFrame "buf @ c"])
    qed
  qed
qed


lemma pump_idle:
  "idle r \<Longrightarrow> pump f (buffer r) (expectedLength r) s = (r, Returned s)"
  by (cases "expectedLength r")
     (auto simp: idle_def pump.simps readUInt32BE_None_iff [symmetric])

lemma pump_Returned_idle:
  "pump f buf e s = (r, Returned s') \<Longrightarrow> idle r"
proof (induction f buf e s rule: pump.induct)
  case (1 onFrame buf s)
  then show ?case
    by (auto simp: pump.simps(1) [of onFrame buf] idle_def readUInt32BE_None_iff
             split: option.splits if_splits)
next
  case (2 onFrame buf n s)
  then show ?case
    by (auto simp: pump.simps(2) [of onFrame buf] idle_def split: sum.splits if_splits)
qed

lemma feed_eq_pump:
  "idle r \<Longrightarrow> pump f (buffer r @ concat cs) (expectedLength r) s = (r', Returned s')
     \<Longrightarrow> feed f r cs s = (r', Returned s')"
proof (induction cs arbitrary: r s)
  case Nil
  then show ?case by (simp add: pump_idle)
next
  case (Cons c cs)
  obtain r1 res where p: "pump f (buffer r @ c) (expectedLength r) s = (r1, res)"
    by (cases "pump f (buffer r @ c) (expectedLength r) s")
  from Cons.prems(2) have
    "pump f ((buffer r @ c) @ concat cs) (expectedLength r) s = (r', Returned s')" by simp
  then obtain s1 where res: "res = Returned s1"
    and rest: "pump f (buffer r1 @ concat cs) (expectedLength r1) s1 = (r', Returned s')"
    unfolding pump_append [of f "buffer r @ c"] p
    by (cases res) auto
  from p res have "idle r1" by (auto dest: pump_Returned_idle)
  from Cons.IH [OF this rest] p res show ?case by (simp add: push_def)
qed

lemma pump_frame:
  assumes "length p \<le> MAX_FRAME" and "encode_frame p = Some bs"
  shows "pump collect (bs @ rest) None acc = pump collect rest None (acc @ [p])"
proof -
  from assms(2) obtain h where h: "writeUInt32BE (length p) = Some h" and bs: "bs = h @ p"
    by (auto simp: encode_frame_def)
  have rd: "readUInt32BE (h @ p @ rest) = Some (length p)" by (rule u32_roundtrip [OF h])
  have len: "length h = 4" by (rule u32_length [OF h])
  show ?thesis
    using assms(1) rd len
    by (simp add: bs pump.simps(1) [of collect "h @ p @ rest"]
          pump.simps(2) [of collect "p @ rest"] collect_def)
qed

lemma pump_frames:
  assumes "list_all2 (\<lambda>p bs. length p \<le> MAX_FRAME \<and> encode_frame p = Some bs) ps bss"
  shows "pump collect (concat bss @ rest) None acc = pump collect rest None (acc @ ps)"
  using assms
proof (induction ps bss arbitrary: acc rule: list_all2_induct)
  case Nil
  then show ?case by simp
next
  case (Cons p ps bs bss)
  from Cons.hyps(1) have
    "pump collect (bs @ concat bss @ rest) None acc
       = pump collect (concat bss @ rest) None (acc @ [p])"
    by (intro pump_frame) auto
  with Cons.IH [of "acc @ [p]"] show ?case by simp
qed

lemma encode_frame_total:
  "length p \<le> MAX_FRAME \<Longrightarrow> \<exists>bs. encode_frame p = Some bs"
  by (simp add: encode_frame_def writeUInt32BE_def MAX_FRAME_def)


lemma feed_chunking:
  assumes "list_all2 (\<lambda>p bs. length p \<le> MAX_FRAME \<and> encode_frame p = Some bs) ps bss"
    and "concat chunks = concat bss"
  shows "feed collect new_FrameReader chunks [] = (new_FrameReader, Returned ps)"
proof -
  have "idle new_FrameReader" by (simp add: idle_def new_FrameReader_def)
  moreover have "pump collect (concat bss @ []) None [] = pump collect [] None ([] @ ps)"
    by (rule pump_frames [OF assms(1)])
  then have "pump collect (buffer new_FrameReader @ concat chunks)
               (expectedLength new_FrameReader) [] = (new_FrameReader, Returned ps)"
    by (simp add: assms(2) new_FrameReader_def pump.simps(1) [of collect "[]"])
  ultimately show ?thesis by (rule feed_eq_pump)
qed

lemma concat_singletons: "concat (map (\<lambda>b. [b]) xs) = xs"
  by (induction xs) auto

lemma pump_proper_prefix:
  assumes "length p \<le> MAX_FRAME" and "encode_frame p = Some bs" and "k < length bs"
  shows "\<exists>st. \<forall>acc. pump collect (take k bs) None acc = (st, Returned acc)"
proof -
  from assms(2) obtain h where h: "writeUInt32BE (length p) = Some h" and bs: "bs = h @ p"
    by (auto simp: encode_frame_def)
  have len: "length h = 4" by (rule u32_length [OF h])
  show ?thesis
  proof (cases "k < 4")
    case True
    then have "readUInt32BE (take k bs) = None"
      by (simp add: readUInt32BE_None_iff)
    then show ?thesis by (simp add: pump.simps(1) [of collect "take k bs"])
  next
    case False
    then have tk: "take k bs = h @ take (k - 4) p" by (simp add: bs len)
    have rd: "readUInt32BE (h @ take (k - 4) p) = Some (length p)"
      by (rule u32_roundtrip [OF h])
    from assms(3) False have short: "k - 4 < length p"
      by (simp add: bs len)
    show ?thesis
      using assms(1) rd short len
      by (simp add: tk pump.simps(1) [of collect "h @ take (k - 4) p"]
            pump.simps(2) [of collect "take (k - 4) p"])
  qed
qed

text \<open>
  Claim C2. Frames come out once and intact however the bytes are cut into chunks. For
  payloads \<open>p\<close>, \<open>q\<close>, \<open>t\<close> within the ceiling and their encodings (four-byte big-endian
  length, then the payload): feeding the encoding of \<open>p\<close> to a fresh reader one byte per
  chunk calls the callback exactly once, with \<open>p\<close>; feeding the encodings of \<open>p\<close> and \<open>q\<close>
  in one chunk, or cut into chunks in any way at all, calls it exactly twice, with \<open>p\<close> then
  \<open>q\<close>; and when the chunk goes on with the first \<open>k\<close> bytes of the encoding of \<open>t\<close>, those
  bytes are kept, so that feeding the remaining bytes delivers exactly \<open>t\<close>.
\<close>

theorem frame_reader_roundtrip:
  assumes "length p \<le> MAX_FRAME" and "encode_frame p = Some bp"
    and "length q \<le> MAX_FRAME" and "encode_frame q = Some bq"
    and "length t \<le> MAX_FRAME" and "encode_frame t = Some bt" and "k < length bt"
  shows
    "feed collect new_FrameReader (map (\<lambda>b. [b]) bp) [] = (new_FrameReader, Returned [p]) \<and>
     push collect new_FrameReader (bp @ bq) [] = (new_FrameReader, Returned [p, q]) \<and>
     (\<forall>chunks. concat chunks = bp @ bq \<longrightarrow>
        feed collect new_FrameReader chunks [] = (new_FrameReader, Returned [p, q])) \<and>
     (\<exists>st. push collect new_FrameReader (bp @ bq @ take k bt) [] = (st, Returned [p, q]) \<and>
           push collect st (drop k bt) [] = (new_FrameReader, Returned [t]))"
proof -
  have one: "list_all2 (\<lambda>p bs. length p \<le> MAX_FRAME \<and> encode_frame p = Some bs) [p] [bp]"
    using assms by simp
  have two: "list_all2 (\<lambda>p bs. length p \<le> MAX_FRAME \<and> encode_frame p = Some bs) [p, q] [bp, bq]"
    using assms by simp
  have a: "feed collect new_FrameReader (map (\<lambda>b. [b]) bp) [] = (new_FrameReader, Returned [p])"
    by (rule feed_chunking [OF one]) (simp add: concat_singletons)
  have c: "feed collect new_FrameReader chunks [] = (new_FrameReader, Returned [p, q])"
    if "concat chunks = bp @ bq" for chunks
    by (rule feed_chunking [OF two]) (simp add: that)
  have b: "push collect new_FrameReader (bp @ bq) [] = (new_FrameReader, Returned [p, q])"
    using c [of "[bp @ bq]"] by (simp split: prod.splits push_result.splits)
  obtain st where st: "\<And>acc. pump collect (take k bt) None acc = (st, Returned acc)"
    using pump_proper_prefix [OF assms(5,6,7)] by blast
  have "pump collect (concat [bp, bq] @ take k bt) None [] = pump collect (take k bt) None ([] @ [p, q])"
    by (rule pump_frames [OF two])
  then have d1: "push collect new_FrameReader (bp @ bq @ take k bt) [] = (st, Returned [p, q])"
    by (simp add: st push_def new_FrameReader_def)
  have "pump collect (take k bt @ drop k bt) None [] =
          pump collect (buffer st @ drop k bt) (expectedLength st) []"
    by (simp only: pump_append [of collect "take k bt"] st prod.case push_result.case)
  moreover have "pump collect (bt @ []) None [] = pump collect [] None ([] @ [t])"
    by (rule pump_frame [OF assms(5,6)])
  ultimately have d2: "push collect st (drop k bt) [] = (new_FrameReader, Returned [t])"
    by (simp add: push_def new_FrameReader_def pump.simps(1) [of collect "[]"])
  from a b c d1 d2 show ?thesis by blast
qed

theorem frame_reader_roundtrip_witness:
  "feed collect new_FrameReader [[0], [0], [0], [2], [7], [9]] [] = (new_FrameReader, Returned [[7, 9]]) \<and>
   push collect new_FrameReader ([0, 0, 0, 2, 7, 9] @ [0, 0, 0, 1, 5]) []
     = (new_FrameReader, Returned [[7, 9], [5]]) \<and>
   (\<exists>st. push collect new_FrameReader ([0, 0, 0, 2, 7, 9] @ [0, 0, 0, 1, 5] @ [0, 0, 0, 1]) []
           = (st, Returned [[7, 9], [5]]) \<and>
         push collect st [3] [] = (new_FrameReader, Returned [[3]]))"
  using frame_reader_roundtrip [of "[7, 9]" "[0, 0, 0, 2, 7, 9]" "[5]" "[0, 0, 0, 1, 5]"
          "[3]" "[0, 0, 0, 1, 3]" 4]
  by (simp add: encode_frame_def writeUInt32BE_def MAX_FRAME_def)

lemma segments_nonempty: "segments s \<noteq> []"
  by (induction s) (auto split: list.splits)

lemma segments_slashfree: "seg \<in> set (segments s) \<Longrightarrow> slashfree seg"
  by (induction s arbitrary: seg) (auto simp: slashfree_def split: list.splits if_splits)

lemma segments_single: "slashfree seg \<Longrightarrow> segments seg = [seg]"
  by (induction seg) (auto simp: slashfree_def)

lemma segments_app: "slashfree seg \<Longrightarrow> segments (seg @ CHR ''/'' # rest) = seg # segments rest"
  by (induction seg) (auto simp: slashfree_def)

lemma segments_join:
  "segs \<noteq> [] \<Longrightarrow> \<forall>seg\<in>set segs. slashfree seg \<Longrightarrow> segments (join segs) = segs"
  by (induction segs rule: join.induct) (auto simp: segments_single segments_app)

lemma consume_clean:
  "seg \<noteq> [] \<Longrightarrow> seg \<noteq> ''.'' \<Longrightarrow> seg \<noteq> ''..'' \<Longrightarrow> consume a res seg = seg # res"
  by (simp add: consume_def)

lemma foldl_consume_clean:
  "\<forall>seg\<in>set segs. seg \<noteq> [] \<and> seg \<noteq> ''.'' \<and> seg \<noteq> ''..''
     \<Longrightarrow> foldl (consume a) res segs = rev segs @ res"
  by (induction segs arbitrary: res) (simp_all add: consume_clean)

lemma consume_okseg:
  assumes "\<forall>s\<in>set res. okseg s" and "slashfree seg"
  shows "\<forall>s\<in>set (consume a res seg). okseg s"
proof -
  have dd: "okseg ''..''" by (simp add: okseg_def slashfree_def)
  show ?thesis
  proof (cases "seg = [] \<or> seg = ''.''")
    case True
    with assms show ?thesis by (simp add: consume_def)
  next
    case False
    show ?thesis
    proof (cases "seg = ''..''")
      case True
      with assms(1) dd show ?thesis
        by (cases res) (simp_all add: consume_def)
    next
      case nd: False
      with False assms have "okseg seg" by (simp add: okseg_def)
      with False nd assms(1) show ?thesis by (simp add: consume_def)
    qed
  qed
qed

lemma foldl_consume_okseg:
  "\<forall>s\<in>set res. okseg s \<Longrightarrow> \<forall>seg\<in>set segs. slashfree seg
     \<Longrightarrow> \<forall>s\<in>set (foldl (consume a) res segs). okseg s"
proof (induction segs arbitrary: res)
  case Nil
  then show ?case by simp
next
  case (Cons seg segs)
  from Cons.prems have "\<forall>s\<in>set (consume a res seg). okseg s"
    by (intro consume_okseg) simp_all
  from Cons.IH [OF this] Cons.prems(2) show ?case by simp
qed

lemma consume_no_dotdot:
  "''..'' \<notin> set res \<Longrightarrow> ''..'' \<notin> set (consume False res seg)"
  by (cases res) (auto simp: consume_def)

lemma foldl_consume_no_dotdot:
  "''..'' \<notin> set res \<Longrightarrow> ''..'' \<notin> set (foldl (consume False) res segs)"
proof (induction segs arbitrary: res)
  case Nil
  then show ?case by simp
next
  case (Cons seg segs)
  from Cons.IH [OF consume_no_dotdot [OF Cons.prems, of seg]] show ?case by simp
qed

lemma slashfree_ends:
  "slashfree seg \<Longrightarrow> seg \<noteq> [] \<Longrightarrow> hd seg \<noteq> CHR ''/'' \<and> last seg \<noteq> CHR ''/''"
  unfolding slashfree_def by (metis hd_in_set last_in_set)

lemma join_okseg:
  "segs \<noteq> [] \<Longrightarrow> \<forall>s\<in>set segs. okseg s
     \<Longrightarrow> join segs \<noteq> [] \<and> hd (join segs) \<noteq> CHR ''/'' \<and> last (join segs) \<noteq> CHR ''/''"
proof (induction segs rule: join.induct)
  case 1
  then show ?case by simp
next
  case (2 seg)
  then show ?case using slashfree_ends [of seg] by (simp add: okseg_def)
next
  case (3 seg v va)
  then show ?case using slashfree_ends [of seg] by (simp add: okseg_def)
qed

lemma startsWith_slash_Cons [simp]: "startsWith_slash (c # cs) = (c = CHR ''/'')"
  by (simp add: startsWith_slash_def)

lemma startsWith_slash_Nil [simp]: "startsWith_slash [] = False"
  by (simp add: startsWith_slash_def)

lemma endsWith_slash_snoc [simp]: "endsWith_slash (xs @ [c]) = (c = CHR ''/'')"
  by (simp add: endsWith_slash_def)

lemma endsWith_slash_Cons: "xs \<noteq> [] \<Longrightarrow> endsWith_slash (c # xs) = endsWith_slash xs"
  by (simp add: endsWith_slash_def)

lemma resolved_okseg: "\<forall>seg\<in>set (resolved s). okseg seg"
  unfolding resolved_def set_rev
  by (rule foldl_consume_okseg) (simp_all add: segments_slashfree)

lemma resolved_abs_no_dotdot: "startsWith_slash s \<Longrightarrow> ''..'' \<notin> set (resolved s)"
  unfolding resolved_def set_rev
  by (simp add: foldl_consume_no_dotdot)

lemma normalizeVfsPath_char:
  "normalizeVfsPath s =
     (if resolved s = [] then (if startsWith_slash s then ''/'' else ''/.'')
      else CHR ''/'' # join (resolved s))"
proof (cases "s = []")
  case True
  then show ?thesis
    by (simp add: normalizeVfsPath_def posix_normalize_def resolved_def
          endsWith_slash_def consume_def)
next
  case ne: False
  define abs where "abs = startsWith_slash s"
  define tr where "tr = endsWith_slash s"
  define j where "j = join (resolved s)"
  have p: "normalizeString s (\<not> abs) = j"
    by (simp add: normalizeString_def resolved_def abs_def j_def)
  have pn: "posix_normalize s =
      (if j = [] then (if abs then ''/'' else if tr then ''./'' else ''.'')
       else if abs then CHR ''/'' # (if tr then j @ ''/'' else j) else (if tr then j @ ''/'' else j))"
    using ne p by (simp add: posix_normalize_def Let_def abs_def [symmetric] tr_def [symmetric])
  show ?thesis
  proof (cases "resolved s = []")
    case True
    then have "j = []" by (simp add: j_def)
    with True show ?thesis
      by (simp add: normalizeVfsPath_def pn abs_def [symmetric] endsWith_slash_def)
  next
    case False
    from join_okseg [OF False resolved_okseg]
    have "j \<noteq> []" "hd j \<noteq> CHR ''/''" "last j \<noteq> CHR ''/''" by (simp_all add: j_def)
    then obtain c cs where jc: "j = c # cs" "c \<noteq> CHR ''/''" "last (c # cs) \<noteq> CHR ''/''"
      by (cases j) auto
    have nl: "\<not> endsWith_slash (CHR ''/'' # c # cs)" "\<not> endsWith_slash (c # cs)"
      using jc(3) by (simp_all add: endsWith_slash_def)
    have bl: "butlast (CHR ''/'' # c # cs @ ''/'') = CHR ''/'' # c # cs"
      "endsWith_slash (CHR ''/'' # c # cs @ ''/'')"
      by (simp_all add: butlast_append endsWith_slash_def)
    from False show ?thesis
      unfolding normalizeVfsPath_def pn j_def [symmetric] jc(1)
      using jc(2) nl bl
      by (simp add: Let_def)
  qed
qed

lemma normalizeVfsPath_fixed:
  assumes "segs \<noteq> []"
    and "\<forall>seg\<in>set segs. seg \<noteq> [] \<and> slashfree seg \<and> seg \<noteq> ''.'' \<and> seg \<noteq> ''..''"
  shows "normalizeVfsPath (CHR ''/'' # join segs) = CHR ''/'' # join segs"
proof -
  have sf: "\<forall>seg\<in>set segs. slashfree seg" using assms(2) by simp
  have "segments (CHR ''/'' # join segs) = [] # segs"
    using segments_join [OF assms(1) sf] by simp
  then have "resolved (CHR ''/'' # join segs) = segs"
    using foldl_consume_clean [of segs False "[]"] assms(2)
    by (simp add: resolved_def consume_def)
  with assms(1) show ?thesis by (simp add: normalizeVfsPath_char)
qed

lemma normalizeVfsPath_root: "normalizeVfsPath ''/'' = ''/''"
  by (simp add: normalizeVfsPath_char resolved_def consume_def)

lemma normalizeVfsPath_idem_iff:
  "normalizeVfsPath (normalizeVfsPath s) = normalizeVfsPath s
     \<longleftrightarrow> dot_segment_free (normalizeVfsPath s)"
proof (cases "resolved s = []")
  case True
  have "normalizeVfsPath ''/.'' = ''/''"
    by (simp add: normalizeVfsPath_char resolved_def consume_def)
  with True show ?thesis
    by (auto simp: normalizeVfsPath_char [of s] normalizeVfsPath_root dot_segment_free_def)
next
  case False
  have ok: "\<forall>seg\<in>set (resolved s). okseg seg" by (rule resolved_okseg)
  then have sf: "\<forall>seg\<in>set (resolved s). slashfree seg" by (simp add: okseg_def)
  have r: "normalizeVfsPath s = CHR ''/'' # join (resolved s)"
    using False by (simp add: normalizeVfsPath_char [of s])
  have sg: "segments (normalizeVfsPath s) = [] # resolved s"
    using segments_join [OF False sf] by (simp add: r)
  show ?thesis
  proof
    assume "dot_segment_free (normalizeVfsPath s)"
    then have "\<forall>seg\<in>set (resolved s). seg \<noteq> [] \<and> slashfree seg \<and> seg \<noteq> ''.'' \<and> seg \<noteq> ''..''"
      using ok by (auto simp: dot_segment_free_def sg okseg_def)
    from normalizeVfsPath_fixed [OF False this] show "normalizeVfsPath (normalizeVfsPath s) = normalizeVfsPath s"
      by (simp add: r)
  next
    assume idem: "normalizeVfsPath (normalizeVfsPath s) = normalizeVfsPath s"
    define rr where "rr = CHR ''/'' # join (resolved s)"
    have abs: "startsWith_slash rr" by (simp add: rr_def)
    have jne: "join (resolved s) \<noteq> []" using join_okseg [OF False ok] by simp
    from idem have fx: "normalizeVfsPath rr = rr" by (simp add: r rr_def)
    have "resolved rr \<noteq> []"
    proof
      assume "resolved rr = []"
      then have "normalizeVfsPath rr = ''/''" using abs by (simp add: normalizeVfsPath_char)
      with fx jne show False by (simp add: rr_def)
    qed
    then have r2: "resolved rr \<noteq> []" "join (resolved rr) = join (resolved s)"
      using fx by (simp_all add: normalizeVfsPath_char [of rr]) (simp add: rr_def)
    have "\<forall>seg\<in>set (resolved rr). slashfree seg"
      using resolved_okseg [of rr] by (simp add: okseg_def)
    from segments_join [OF r2(1) this] segments_join [OF False sf] r2(2)
    have "resolved rr = resolved s" by metis
    with resolved_abs_no_dotdot [OF abs] have "''..'' \<notin> set (resolved s)" by simp
    moreover have "''.'' \<notin> set (resolved s)" using ok by (auto simp: okseg_def)
    ultimately show "dot_segment_free (normalizeVfsPath s)"
      by (simp add: dot_segment_free_def sg)
  qed
qed

lemma normalizeVfsPath_abs_dot_free:
  assumes "startsWith_slash s"
  shows "dot_segment_free (normalizeVfsPath s)"
proof (cases "resolved s = []")
  case True
  with assms show ?thesis by (simp add: normalizeVfsPath_char dot_segment_free_def)
next
  case False
  have ok: "\<forall>seg\<in>set (resolved s). okseg seg" by (rule resolved_okseg)
  then have sf: "\<forall>seg\<in>set (resolved s). slashfree seg" by (simp add: okseg_def)
  have "segments (normalizeVfsPath s) = [] # resolved s"
    using segments_join [OF False sf] False by (simp add: normalizeVfsPath_char)
  moreover have "''.'' \<notin> set (resolved s)" using ok by (auto simp: okseg_def)
  ultimately show ?thesis
    using resolved_abs_no_dotdot [OF assms] by (simp add: dot_segment_free_def)
qed

lemma normalizeVfsPath_shape:
  "startsWith_slash (normalizeVfsPath s) \<and>
   (normalizeVfsPath s = ''/'' \<or> \<not> endsWith_slash (normalizeVfsPath s)) \<and>
   (\<not> startsWith_slash s \<longrightarrow>
      (\<exists>t. normalizeVfsPath s = CHR ''/'' # t \<and> t \<noteq> [] \<and> \<not> startsWith_slash t))"
proof (cases "resolved s = []")
  case True
  then show ?thesis by (simp add: normalizeVfsPath_char endsWith_slash_def)
next
  case False
  from join_okseg [OF False resolved_okseg]
  obtain c cs where jc: "join (resolved s) = c # cs" "c \<noteq> CHR ''/''" "last (c # cs) \<noteq> CHR ''/''"
    by (cases "join (resolved s)") auto
  with False show ?thesis
    by (simp add: normalizeVfsPath_char endsWith_slash_def)
qed

text \<open>
  Claim C4, as amended. A second pass of \<^verbatim>\<open>normalizeVfsPath\<close> changes nothing exactly when
  the result of the first has no \<open>.\<close> or \<open>..\<close> segment, and that is so for every input that
  starts with \<open>/\<close>. The root maps to itself. For an input without a leading slash the
  result is one \<open>/\<close> followed by a non-empty rest that does not start with \<open>/\<close>. Every
  result starts with \<open>/\<close> and ends in \<open>/\<close> only when it is the root.
\<close>

theorem normalizeVfsPath_canonical:
  "(normalizeVfsPath (normalizeVfsPath s) = normalizeVfsPath s
      \<longleftrightarrow> dot_segment_free (normalizeVfsPath s)) \<and>
   (startsWith_slash s \<longrightarrow> normalizeVfsPath (normalizeVfsPath s) = normalizeVfsPath s) \<and>
   normalizeVfsPath ''/'' = ''/'' \<and>
   (\<not> startsWith_slash s \<longrightarrow>
      (\<exists>t. normalizeVfsPath s = CHR ''/'' # t \<and> t \<noteq> [] \<and> \<not> startsWith_slash t)) \<and>
   startsWith_slash (normalizeVfsPath s) \<and>
   (normalizeVfsPath s = ''/'' \<or> \<not> endsWith_slash (normalizeVfsPath s))"
  using normalizeVfsPath_idem_iff [of s] normalizeVfsPath_abs_dot_free [of s]
    normalizeVfsPath_root normalizeVfsPath_shape [of s]
  by blast

text \<open>
  Claim C4 as stated fails: for the relative input \<open>..\<close> the first pass gives \<open>/..\<close> (the
  slash is put in front after Node has normalized the relative path), and the second pass
  gives \<open>/\<close>.
\<close>

theorem normalizeVfsPath_not_idempotent:
  "normalizeVfsPath (normalizeVfsPath ''..'') \<noteq> normalizeVfsPath ''..''"
  by (simp add: normalizeVfsPath_char resolved_def consume_def)

theorem normalizeVfsPath_canonical_witness:
  "normalizeVfsPath (normalizeVfsPath ''/a//b/../c/'') = normalizeVfsPath ''/a//b/../c/'' \<and>
   normalizeVfsPath ''/a//b/../c/'' = ''/a/c'' \<and> normalizeVfsPath ''x/y/'' = ''/x/y''"
  using normalizeVfsPath_canonical [of "''/a//b/../c/''"] normalizeVfsPath_canonical [of "''x/y/''"]
  by (simp add: normalizeVfsPath_char resolved_def consume_def)

text \<open>The model of Node's \<^verbatim>\<open>normalize\<close> on the examples of Node's documentation and on the
  inputs used above.\<close>

lemma posix_normalize_examples:
  "posix_normalize ''/foo/bar//baz/asdf/quux/..'' = ''/foo/bar/baz/asdf'' \<and>
   posix_normalize '''' = ''.'' \<and>
   posix_normalize ''..'' = ''..'' \<and>
   posix_normalize ''/..'' = ''/'' \<and>
   posix_normalize ''./'' = ''./'' \<and>
   posix_normalize ''a/../../b/'' = ''../b/''"
  by (simp add: posix_normalize_def normalizeString_def consume_def endsWith_slash_def)

































lemma pump_frame_cb:
  assumes "length p \<le> MAX_FRAME" and "encode_frame p = Some bs"
  shows "pump f (bs @ rest) None s =
           (case f p s of
              Inl x \<Rightarrow> (\<lparr> buffer = rest, expectedLength = None \<rparr>, Aborted x)
            | Inr s' \<Rightarrow> pump f rest None s')"
proof -
  from assms(2) obtain h where h: "writeUInt32BE (length p) = Some h" and bs: "bs = h @ p"
    by (auto simp: encode_frame_def)
  have rd: "readUInt32BE (h @ p @ rest) = Some (length p)" by (rule u32_roundtrip [OF h])
  have len: "length h = 4" by (rule u32_length [OF h])
  show ?thesis
    using assms(1) rd len
    by (simp add: bs pump.simps(1) [of f "h @ p @ rest"] pump.simps(2) [of f "p @ rest"]
          split: sum.splits)
qed

lemma pump_frames_cb:
  assumes "list_all2 (\<lambda>p bs. length p \<le> MAX_FRAME \<and> encode_frame p = Some bs) ps bss"
    and "deliver f ps s = Inr s1"
  shows "pump f (concat bss @ rest) None s = pump f rest None s1"
  using assms
proof (induction ps bss arbitrary: s rule: list_all2_induct)
  case Nil
  then show ?case by simp
next
  case (Cons p ps bs bss)
  from Cons.prems obtain s' where s': "f p s = Inr s'" "deliver f ps s' = Inr s1"
    by (auto split: sum.splits)
  from Cons.hyps(1) s'(1) have
    "pump f (bs @ concat bss @ rest) None s = pump f (concat bss @ rest) None s'"
    using pump_frame_cb [of p bs f "concat bss @ rest" s] by simp
  with Cons.IH [OF s'(2)] show ?case by simp
qed

lemma deliver_append:
  "deliver f (ps @ qs) s = (case deliver f ps s of Inl x \<Rightarrow> Inl x | Inr s' \<Rightarrow> deliver f qs s')"
  by (induction ps arbitrary: s) (simp_all split: sum.splits)

lemma deliver_collect: "deliver collect ps acc = Inr (acc @ ps)"
  by (induction ps arbitrary: acc) (simp_all add: collect_def)

lemma feed_outcome:
  "idle r \<Longrightarrow> snd (feed f r cs s) = snd (pump f (buffer r @ concat cs) (expectedLength r) s)"
proof (induction cs arbitrary: r s)
  case Nil
  then show ?case by (simp add: pump_idle)
next
  case (Cons c cs)
  obtain r1 res where p: "pump f (buffer r @ c) (expectedLength r) s = (r1, res)"
    by (cases "pump f (buffer r @ c) (expectedLength r) s")
  have app: "pump f (buffer r @ c @ concat cs) (expectedLength r) s =
     (case res of
        Returned s' \<Rightarrow> pump f (buffer r1 @ concat cs) (expectedLength r1) s'
      | Threw err s' \<Rightarrow> (r1\<lparr> buffer := buffer r1 @ concat cs \<rparr>, Threw err s')
      | Aborted x \<Rightarrow> (r1\<lparr> buffer := buffer r1 @ concat cs \<rparr>, Aborted x))"
    using pump_append [of f "buffer r @ c" "concat cs" "expectedLength r" s] by (simp add: p)
  show ?case
  proof (cases res)
    case (Returned s1)
    with p have "idle r1" by (auto dest: pump_Returned_idle)
    from Cons.IH [OF this, of s1] show ?thesis by (simp add: push_def p app Returned)
  next
    case (Threw err s1)
    then show ?thesis by (simp add: push_def p app)
  next
    case (Aborted x)
    then show ?thesis by (simp add: push_def p app)
  qed
qed

lemma feed_frames_then:
  assumes "list_all2 (\<lambda>p bs. length p \<le> MAX_FRAME \<and> encode_frame p = Some bs) ps bss"
    and "deliver f ps s = Inr s1" and "concat chunks = concat bss @ rest"
  shows "snd (feed f new_FrameReader chunks s) = snd (pump f rest None s1)"
proof -
  have "idle new_FrameReader" by (simp add: idle_def new_FrameReader_def)
  from feed_outcome [OF this, of f chunks s] pump_frames_cb [OF assms(1,2), of rest]
  show ?thesis by (simp add: new_FrameReader_def assms(3))
qed

lemma pump_oversized:
  assumes "length hdr = 4" and "readUInt32BE hdr = Some n" and "MAX_FRAME < n"
  shows "pump f (hdr @ rest) None s
           = (\<lparr> buffer = rest, expectedLength = Some n \<rparr>, Threw (FrameTooLarge n) s)"
  using assms readUInt32BE_append [OF assms(2), of rest]
  by (simp add: pump.simps(1) [of f "hdr @ rest"])

lemma run_Exited: "run decode sock payload (Exited status c) evs = Exited status c"
  by (induction evs) (simp_all add: run_def)

lemma run_append:
  "run decode sock payload p (evs @ evs') = run decode sock payload (run decode sock payload p evs) evs'"
  by (simp add: run_def)

lemma run_data:
  "run decode sock payload (Running r c) (map Data chunks) =
     (case feed (frame_callback decode) r chunks c of
        (r', Returned c') \<Rightarrow> Running r' c'
      | (r', Threw err c') \<Rightarrow> Exited 1 (c'\<lparr> stderr := stderr c' @ [Uncaught (PushError err)] \<rparr>)
      | (r', Aborted (status, c')) \<Rightarrow> Exited status c')"
proof (induction chunks arbitrary: r c)
  case Nil
  then show ?case by (simp add: run_def)
next
  case (Cons chunk chunks)
  obtain r1 res where p: "push (frame_callback decode) r chunk c = (r1, res)"
    by (cases "push (frame_callback decode) r chunk c")
  have step: "run decode sock payload (Running r c) (Data chunk # map Data chunks)
                = run decode sock payload (handle decode sock payload (Running r c) (Data chunk))
                    (map Data chunks)"
    by (simp add: run_def)
  show ?case
  proof (cases res)
    case (Returned c1)
    with p Cons.IH [of r1 c1] show ?thesis by (simp add: step)
  next
    case (Threw err c1)
    with p show ?thesis by (simp add: step run_Exited uncaught_def)
  next
    case (Aborted x)
    with p show ?thesis by (cases x) (simp add: step run_Exited)
  qed
qed

lemma run_outcome:
  "run decode sock payload (Running r c) (map Data chunks @ evs) =
     (case snd (feed (frame_callback decode) r chunks c) of
        Returned c' \<Rightarrow>
          run decode sock payload
            (Running (fst (feed (frame_callback decode) r chunks c)) c') evs
      | Threw err c' \<Rightarrow> Exited 1 (c'\<lparr> stderr := stderr c' @ [Uncaught (PushError err)] \<rparr>)
      | Aborted x \<Rightarrow> Exited (fst x) (snd x))"
  by (cases "feed (frame_callback decode) r chunks c")
     (auto simp: run_append run_data run_Exited split: push_result.splits)

lemma run_then_terminal:
  assumes "list_all2 (\<lambda>p bs. length p \<le> MAX_FRAME \<and> encode_frame p = Some bs) ps bss"
    and "deliver (frame_callback decode) ps c = Inr c1"
    and "length pt \<le> MAX_FRAME" and "encode_frame pt = Some bt"
    and "concat chunks = concat bss @ bt @ rest"
    and "frame_callback decode pt c1 = Inl (status, c')"
  shows "run decode sock payload (Running new_FrameReader c) (map Data chunks @ evs)
           = Exited status c'"
proof -
  have "snd (feed (frame_callback decode) new_FrameReader chunks c)
          = snd (pump (frame_callback decode) (bt @ rest) None c1)"
    by (rule feed_frames_then [OF assms(1,2,5)])
  also have "\<dots> = Aborted (status, c')"
    by (simp add: pump_frame_cb [OF assms(3,4)] assms(6))
  finally show ?thesis by (simp add: run_outcome)
qed

lemma run_then_oversized:
  assumes "list_all2 (\<lambda>p bs. length p \<le> MAX_FRAME \<and> encode_frame p = Some bs) ps bss"
    and "deliver (frame_callback decode) ps c = Inr c1"
    and "length hdr = 4" and "readUInt32BE hdr = Some n" and "MAX_FRAME < n"
    and "concat chunks = concat bss @ hdr @ rest"
  shows "run decode sock payload (Running new_FrameReader c) (map Data chunks @ evs)
           = Exited 1 (c1\<lparr> stderr := stderr c1 @ [Uncaught (PushError (FrameTooLarge n))] \<rparr>)"
proof -
  have "snd (feed (frame_callback decode) new_FrameReader chunks c)
          = snd (pump (frame_callback decode) (hdr @ rest) None c1)"
    by (rule feed_frames_then [OF assms(1,2,6)])
  also have "\<dots> = Threw (FrameTooLarge n) c1"
    by (simp add: pump_oversized [OF assms(3,4,5)])
  finally show ?thesis by (simp add: run_outcome)
qed

lemma run_frames_only:
  assumes "list_all2 (\<lambda>p bs. length p \<le> MAX_FRAME \<and> encode_frame p = Some bs) ps bss"
    and "deliver (frame_callback decode) ps c = Inr c1"
    and "concat chunks = concat bss"
  shows "run decode sock payload (Running new_FrameReader c) (map Data chunks)
           = Running new_FrameReader c1"
proof -
  have "idle new_FrameReader" by (simp add: idle_def new_FrameReader_def)
  moreover have "pump (frame_callback decode) (concat bss @ []) None c
                   = pump (frame_callback decode) [] None c1"
    by (rule pump_frames_cb [OF assms(1,2)])
  then have "pump (frame_callback decode) (buffer new_FrameReader @ concat chunks)
               (expectedLength new_FrameReader) c = (new_FrameReader, Returned c1)"
    by (simp add: assms(3) new_FrameReader_def pump.simps(1) [of _ "[]"])
  ultimately have "feed (frame_callback decode) new_FrameReader chunks c
                     = (new_FrameReader, Returned c1)"
    by (rule feed_eq_pump)
  then show ?thesis by (simp add: run_data)
qed

lemma show_digit: "n < 10 \<Longrightarrow> show_nat n = [digit n]"
  by (simp add: show_nat.simps)

text \<open>
  Claim C3. Take any stream of bytes that consists of whole frames within the ceiling, then
  four bytes that read as a length \<open>n\<close> above \<open>MAX_FRAME\<close>, then anything, or nothing, and cut
  it into chunks in any way. When the callback returns on the earlier frames, feeding the
  chunks to a fresh reader ends with \<^verbatim>\<open>push\<close> throwing \<open>Frame too large: n\<close>, and the callback
  has been called on the earlier frames and on nothing else. The \<^verbatim>\<open>push\<close> that sees the four
  bytes at the head of its buffer throws whatever follows them, so no payload byte is waited
  for. In the client the exception leaves the \<^verbatim>\<open>data\<close> handler uncaught: the process ends
  with status 1, its output being that of the earlier frames and the report of the error on
  stderr, and takes no further event, so the reader is never pushed to again and the frame
  never reaches the callback. A length of exactly \<open>MAX_FRAME\<close> does not throw: the reader
  waits while fewer payload bytes are there and delivers the frame once all are.
\<close>

theorem oversized_frame_rejected:
  assumes "list_all2 (\<lambda>p bs. length p \<le> MAX_FRAME \<and> encode_frame p = Some bs) ps bss"
    and "length hdr = 4" and "readUInt32BE hdr = Some n"
  shows
    "(MAX_FRAME < n \<and> concat chunks = concat bss @ hdr @ rest \<and> deliver onFrame ps s = Inr s' \<longrightarrow>
        snd (feed onFrame new_FrameReader chunks s) = Threw (FrameTooLarge n) s') \<and>
     (MAX_FRAME < n \<and> concat chunks = concat bss @ hdr @ rest \<longrightarrow>
        snd (feed collect new_FrameReader chunks []) = Threw (FrameTooLarge n) ps) \<and>
     (MAX_FRAME < n \<and> expectedLength r = None \<and> buffer r @ chunk = hdr @ rest \<longrightarrow>
        push onFrame r chunk s
          = (\<lparr> buffer = rest, expectedLength = Some n \<rparr>, Threw (FrameTooLarge n) s)) \<and>
     (MAX_FRAME < n \<and> concat chunks = concat bss @ hdr @ rest \<and>
      deliver (frame_callback decode) ps c = Inr c' \<longrightarrow>
        run decode sock payload (Running new_FrameReader c) (map Data chunks @ evs)
          = Exited 1 (c'\<lparr> stderr := stderr c' @ [Uncaught (PushError (FrameTooLarge n))] \<rparr>)) \<and>
     (n = MAX_FRAME \<and> expectedLength r = None \<and> buffer r @ chunk = hdr @ rest \<and>
      length rest < MAX_FRAME \<longrightarrow>
        push onFrame r chunk s = (\<lparr> buffer = rest, expectedLength = Some n \<rparr>, Returned s)) \<and>
     (n = MAX_FRAME \<and> expectedLength r = None \<and> buffer r @ chunk = hdr @ rest \<and>
      length rest = MAX_FRAME \<longrightarrow>
        push onFrame r chunk s =
          (case onFrame rest s of
             Inl x \<Rightarrow> (new_FrameReader, Aborted x)
           | Inr t \<Rightarrow> (new_FrameReader, Returned t)))"
proof -
  have a: "snd (feed onFrame new_FrameReader chunks s) = Threw (FrameTooLarge n) s'"
    if "MAX_FRAME < n" "concat chunks = concat bss @ hdr @ rest" "deliver onFrame ps s = Inr s'"
    using feed_frames_then [OF assms(1) that(3,2)] pump_oversized [OF assms(2,3) that(1), of onFrame rest s']
    by simp
  have b: "snd (feed collect new_FrameReader chunks []) = Threw (FrameTooLarge n) ps"
    if "MAX_FRAME < n" "concat chunks = concat bss @ hdr @ rest"
    using feed_frames_then [OF assms(1) deliver_collect that(2)]
      pump_oversized [OF assms(2,3) that(1), of collect rest "[] @ ps"]
    by simp
  have c: "push onFrame r chunk s
          = (\<lparr> buffer = rest, expectedLength = Some n \<rparr>, Threw (FrameTooLarge n) s)"
    if "MAX_FRAME < n" "expectedLength r = None" "buffer r @ chunk = hdr @ rest"
    using that pump_oversized [OF assms(2,3) that(1), of onFrame rest s] by (simp add: push_def)
  have d: "run decode sock payload (Running new_FrameReader c) (map Data chunks @ evs)
          = Exited 1 (c'\<lparr> stderr := stderr c' @ [Uncaught (PushError (FrameTooLarge n))] \<rparr>)"
    if "MAX_FRAME < n" "concat chunks = concat bss @ hdr @ rest"
      "deliver (frame_callback decode) ps c = Inr c'"
    by (rule run_then_oversized [OF assms(1) that(3) assms(2,3) that(1,2)])
  have e: "push onFrame r chunk s = (\<lparr> buffer = rest, expectedLength = Some n \<rparr>, Returned s)"
    if "n = MAX_FRAME" "expectedLength r = None" "buffer r @ chunk = hdr @ rest"
      "length rest < MAX_FRAME"
    using that assms(2) readUInt32BE_append [OF assms(3), of rest]
    by (simp add: push_def pump.simps(1) [of onFrame "hdr @ rest"] pump.simps(2) [of onFrame rest])
  have f: "push onFrame r chunk s =
          (case onFrame rest s of
             Inl x \<Rightarrow> (new_FrameReader, Aborted x)
           | Inr t \<Rightarrow> (new_FrameReader, Returned t))"
    if "n = MAX_FRAME" "expectedLength r = None" "buffer r @ chunk = hdr @ rest"
      "length rest = MAX_FRAME"
    using that assms(2) readUInt32BE_append [OF assms(3), of rest]
    by (auto simp: push_def pump.simps(1) [of onFrame "hdr @ rest"]
          pump.simps(2) [of onFrame rest] pump.simps(1) [of onFrame "[]"] new_FrameReader_def
          split: sum.splits)
  show ?thesis
    apply (intro conjI impI; elim conjE)
    subgoal by (rule a)
    subgoal by (rule b)
    subgoal by (rule c)
    subgoal by (rule d)
    subgoal by (rule e)
    subgoal by (rule f)
    done
qed

theorem oversized_frame_rejected_witness:
  "snd (feed collect new_FrameReader [[0, 0, 0, 1, 7, 0, 64], [0, 1, 9]] [])
     = Threw (FrameTooLarge 4194305) [[7]] \<and>
   push collect new_FrameReader [0, 64, 0, 1, 7] []
     = (\<lparr> buffer = [7], expectedLength = Some 4194305 \<rparr>, Threw (FrameTooLarge 4194305) []) \<and>
   run (\<lambda>frame. Inr (ExecOutput 1 ''stdout'' frame)) ''/tmp/vm.sock'' [] main
       (map Data [[0, 0, 0, 1, 7, 0, 64], [0, 1, 9]] @ [Data [1, 2], End])
     = Exited 1 \<lparr> stdout = [Bytes [7]], stderr = [Uncaught (PushError (FrameTooLarge 4194305))],
                  sent = [], ended = False \<rparr> \<and>
   push collect new_FrameReader [0, 64, 0, 0, 7] []
     = (\<lparr> buffer = [7], expectedLength = Some 4194304 \<rparr>, Returned [])"
  using oversized_frame_rejected [where ps = "[[7]]" and bss = "[[0, 0, 0, 1, 7]]"
          and hdr = "[0, 64, 0, 1]" and n = 4194305
          and chunks = "[[0, 0, 0, 1, 7, 0, 64], [0, 1, 9]]" and rest = "[9]"
          and onFrame = collect and s = "[]" and s' = "[[7]]"
          and decode = "\<lambda>frame. Inr (ExecOutput 1 ''stdout'' frame)"
          and c = "\<lparr> stdout = [], stderr = [], sent = [], ended = False \<rparr>"
          and c' = "\<lparr> stdout = [Bytes [7]], stderr = [], sent = [], ended = False \<rparr>"
          and sock = "''/tmp/vm.sock''" and payload = "[]" and evs = "[Data [1, 2], End]"]
        oversized_frame_rejected [where ps = "[]" and bss = "[]"
          and hdr = "[0, 64, 0, 1]" and n = 4194305
          and r = new_FrameReader and chunk = "[0, 64, 0, 1, 7]" and rest = "[7]"
          and onFrame = collect and s = "[]"]
        oversized_frame_rejected [where ps = "[]" and bss = "[]"
          and hdr = "[0, 64, 0, 0]" and n = 4194304
          and r = new_FrameReader and chunk = "[0, 64, 0, 0, 7]" and rest = "[7]"
          and onFrame = collect and s = "[]"]
  by (simp add: new_FrameReader_def MAX_FRAME_def encode_frame_def writeUInt32BE_def
        collect_def main_def frame_callback_def onMessage_def)

text \<open>
  Claim C6 as stated fails for a response that carries a signal: the exit status is the
  reported exit code also then, and the peer may report 0. And the status is not exactly
  the reported code when that code does not fit in eight bits: 256 gives status 0.
\<close>

theorem signal_exit_zero:
  "handle (\<lambda>frame. Inr (ExecResponse 1 (Some 0) (Some 9))) ''/tmp/vm.sock'' [] main (Data [0, 0, 0, 1, 0])
     = Exited 0 \<lparr> stdout = [], stderr = [Line ''process exited due to signal 9''],
                  sent = [], ended = True \<rparr> \<and>
   handle (\<lambda>frame. Inr (ExecResponse 1 (Some 256) None)) ''/tmp/vm.sock'' [] main (Data [0, 0, 0, 1, 0])
     = Exited 0 \<lparr> stdout = [], stderr = [], sent = [], ended = True \<rparr>"
  by (simp add: main_def new_FrameReader_def push_def pump.simps MAX_FRAME_def
        frame_callback_def onMessage_def console_error_def socket_end_def exit_status_def
        show_int_def show_digit digit_def)

text \<open>
  Claim C6, as amended. Take any stream of bytes that starts with whole frames on which the
  callback returns (output, or messages of a type the client does not know), cut into chunks
  in any way, and let \<open>c'\<close> be what the process has written after them. If the next frame
  decodes to an \<^verbatim>\<open>exec_response\<close>, the process ends with the reported exit code modulo 256, or
  1 when none is reported, with or without a signal; a signal adds one line with its number
  to stderr and changes nothing else. If it decodes to an \<^verbatim>\<open>error\<close> message, the process
  writes code and message to stderr and ends with status 1. If decoding it throws, or if
  what follows is a length above the ceiling, the process ends with status 1 and the report
  of the uncaught error on stderr. None of these writes to stdout. A message of any other
  type is dropped without a trace: after it the process is still running, as it is after any
  stream of whole frames on which the callback returned.
\<close>

theorem cli_exit_status:
  assumes "list_all2 (\<lambda>p bs. length p \<le> MAX_FRAME \<and> encode_frame p = Some bs) ps bss"
    and "deliver (frame_callback decode) ps c = Inr c'"
    and "length pt \<le> MAX_FRAME" and "encode_frame pt = Some bt"
    and "concat chunks = concat bss @ bt @ rest"
  shows
    "(decode pt = Inr (ExecResponse i exit_code signal) \<longrightarrow>
        run decode sock payload (Running new_FrameReader c) (map Data chunks @ evs)
          = Exited (case exit_code of None \<Rightarrow> 1 | Some e \<Rightarrow> nat (e mod 256))
              (socket_end (case signal of
                 None \<Rightarrow> c'
               | Some s \<Rightarrow> console_error (''process exited due to signal '' @ show_int s) c'))) \<and>
     (decode pt = Inr (ErrorResponse i code message) \<longrightarrow>
        run decode sock payload (Running new_FrameReader c) (map Data chunks @ evs)
          = Exited 1 (socket_end (console_error (''error '' @ code @ '': '' @ message) c'))) \<and>
     (decode pt = Inl err \<longrightarrow>
        run decode sock payload (Running new_FrameReader c) (map Data chunks @ evs)
          = Exited 1 (c'\<lparr> stderr := stderr c' @ [Uncaught (CallbackError err)] \<rparr>)) \<and>
     (length hdr = 4 \<and> readUInt32BE hdr = Some n \<and> MAX_FRAME < n \<and>
      concat chunks' = concat bss @ hdr @ rest' \<longrightarrow>
        run decode sock payload (Running new_FrameReader c) (map Data chunks' @ evs)
          = Exited 1 (c'\<lparr> stderr := stderr c' @ [Uncaught (PushError (FrameTooLarge n))] \<rparr>)) \<and>
     (decode pt = Inr OtherMessage \<and> rest = [] \<longrightarrow>
        run decode sock payload (Running new_FrameReader c) (map Data chunks)
          = Running new_FrameReader c') \<and>
     (concat chunks' = concat bss \<longrightarrow>
        run decode sock payload (Running new_FrameReader c) (map Data chunks')
          = Running new_FrameReader c') \<and>
     stdout (socket_end (console_error line c')) = stdout c' \<and>
     stderr (socket_end (console_error line c')) = stderr c' @ [Line line] \<and>
     stdout (socket_end c') = stdout c' \<and>
     stderr (socket_end c') = stderr c' \<and>
     stdout (c'\<lparr> stderr := stderr c' @ [Uncaught thrown] \<rparr>) = stdout c'"
proof -
  note terminal = run_then_terminal [OF assms(1,2,3,4,5), of _ _ sock payload evs]
  have a: "run decode sock payload (Running new_FrameReader c) (map Data chunks @ evs)
          = Exited (case exit_code of None \<Rightarrow> 1 | Some e \<Rightarrow> nat (e mod 256))
              (socket_end (case signal of
                 None \<Rightarrow> c'
               | Some s \<Rightarrow> console_error (''process exited due to signal '' @ show_int s) c'))"
    if "decode pt = Inr (ExecResponse i exit_code signal)"
    by (rule terminal)
       (simp add: frame_callback_def that onMessage_def exit_status_def split: option.splits)
  have b: "run decode sock payload (Running new_FrameReader c) (map Data chunks @ evs)
          = Exited 1 (socket_end (console_error (''error '' @ code @ '': '' @ message) c'))"
    if "decode pt = Inr (ErrorResponse i code message)"
    by (rule terminal) (simp add: frame_callback_def that onMessage_def exit_status_def)
  have d: "run decode sock payload (Running new_FrameReader c) (map Data chunks @ evs)
          = Exited 1 (c'\<lparr> stderr := stderr c' @ [Uncaught (CallbackError err)] \<rparr>)"
    if "decode pt = Inl err"
    by (rule terminal) (simp add: frame_callback_def that uncaught_def)
  have e: "run decode sock payload (Running new_FrameReader c) (map Data chunks' @ evs)
          = Exited 1 (c'\<lparr> stderr := stderr c' @ [Uncaught (PushError (FrameTooLarge n))] \<rparr>)"
    if "length hdr = 4" "readUInt32BE hdr = Some n" "MAX_FRAME < n"
      "concat chunks' = concat bss @ hdr @ rest'"
    by (rule run_then_oversized [OF assms(1,2) that])
  have f: "run decode sock payload (Running new_FrameReader c) (map Data chunks)
          = Running new_FrameReader c'"
    if "decode pt = Inr OtherMessage" "rest = []"
  proof (rule run_frames_only [of "ps @ [pt]" "bss @ [bt]"])
    show "list_all2 (\<lambda>p bs. length p \<le> MAX_FRAME \<and> encode_frame p = Some bs) (ps @ [pt]) (bss @ [bt])"
      using assms(1,3,4) by (simp add: list_all2_appendI)
    show "deliver (frame_callback decode) (ps @ [pt]) c = Inr c'"
      using assms(2) that(1) by (simp add: deliver_append frame_callback_def onMessage_def)
    show "concat chunks = concat (bss @ [bt])" using assms(5) that(2) by simp
  qed
  have g: "run decode sock payload (Running new_FrameReader c) (map Data chunks')
          = Running new_FrameReader c'"
    if "concat chunks' = concat bss"
    by (rule run_frames_only [OF assms(1,2) that])
  from a b d e f g show ?thesis
    by (simp add: socket_end_def console_error_def)
qed

theorem cli_exit_status_witness:
  "run (\<lambda>frame. if frame = [0] then Inr (ExecOutput 1 ''stdout'' [104, 105])
                 else Inr (ExecResponse 1 (Some 259) (Some 9))) ''/tmp/vm.sock'' [] main
       (map Data [[0, 0, 0, 1, 0, 0], [0, 0, 1, 1]] @ [End])
     = Exited 3 \<lparr> stdout = [Bytes [104, 105]], stderr = [Line ''process exited due to signal 9''],
                  sent = [], ended = True \<rparr> \<and>
   run (\<lambda>frame. if frame = [0] then Inr OtherMessage
                 else Inr (ErrorResponse 1 ''ENOENT'' ''no such file'')) ''/tmp/vm.sock'' [] main
       (map Data [[0, 0, 0, 1, 0, 0], [0, 0, 1, 1]] @ [End])
     = Exited 1 \<lparr> stdout = [], stderr = [Line ''error ENOENT: no such file''], sent = [],
                  ended = True \<rparr> \<and>
   run (\<lambda>frame. if frame = [0] then Inr OtherMessage else Inl ''unexpected end of input'')
       ''/tmp/vm.sock'' [] main (map Data [[0, 0, 0, 1, 0, 0], [0, 0, 1, 1]] @ [End])
     = Exited 1 \<lparr> stdout = [], stderr = [Uncaught (CallbackError ''unexpected end of input'')],
                  sent = [], ended = False \<rparr> \<and>
   run (\<lambda>frame. Inr OtherMessage) ''/tmp/vm.sock'' [] main (map Data [[0, 0, 0, 1, 0]])
     = Running new_FrameReader \<lparr> stdout = [], stderr = [], sent = [], ended = False \<rparr>"
  using cli_exit_status [where ps = "[[0]]" and bss = "[[0, 0, 0, 1, 0]]" and pt = "[1]"
          and bt = "[0, 0, 0, 1, 1]" and rest = "[]"
          and chunks = "[[0, 0, 0, 1, 0, 0], [0, 0, 1, 1]]"
          and decode = "\<lambda>frame. if frame = [0] then Inr (ExecOutput 1 ''stdout'' [104, 105])
                 else Inr (ExecResponse 1 (Some 259) (Some 9))"
          and c = "\<lparr> stdout = [], stderr = [], sent = [], ended = False \<rparr>"
          and c' = "\<lparr> stdout = [Bytes [104, 105]], stderr = [], sent = [], ended = False \<rparr>"
          and i = 1 and exit_code = "Some 259" and signal = "Some 9"
          and sock = "''/tmp/vm.sock''" and payload = "[]" and evs = "[End]"]
        cli_exit_status [where ps = "[[0]]" and bss = "[[0, 0, 0, 1, 0]]" and pt = "[1]"
          and bt = "[0, 0, 0, 1, 1]" and rest = "[]"
          and chunks = "[[0, 0, 0, 1, 0, 0], [0, 0, 1, 1]]"
          and decode = "\<lambda>frame. if frame = [0] then Inr OtherMessage
                 else Inr (ErrorResponse 1 ''ENOENT'' ''no such file'')"
          and c = "\<lparr> stdout = [], stderr = [], sent = [], ended = False \<rparr>"
          and c' = "\<lparr> stdout = [], stderr = [], sent = [], ended = False \<rparr>"
          and i = 1 and code = "''ENOENT''" and message = "''no such file''"
          and sock = "''/tmp/vm.sock''" and payload = "[]" and evs = "[End]"]
        cli_exit_status [where ps = "[[0]]" and bss = "[[0, 0, 0, 1, 0]]" and pt = "[1]"
          and bt = "[0, 0, 0, 1, 1]" and rest = "[]"
          and chunks = "[[0, 0, 0, 1, 0, 0], [0, 0, 1, 1]]"
          and decode = "\<lambda>frame. if frame = [0] then Inr OtherMessage
                 else Inl ''unexpected end of input''"
          and c = "\<lparr> stdout = [], stderr = [], sent = [], ended = False \<rparr>"
          and c' = "\<lparr> stdout = [], stderr = [], sent = [], ended = False \<rparr>"
          and err = "''unexpected end of input''"
          and sock = "''/tmp/vm.sock''" and payload = "[]" and evs = "[End]"]
        cli_exit_status [where ps = "[]" and bss = "[]" and pt = "[0]"
          and bt = "[0, 0, 0, 1, 0]" and rest = "[]"
          and chunks = "[[0, 0, 0, 1, 0]]"
          and decode = "\<lambda>frame. Inr OtherMessage"
          and c = "\<lparr> stdout = [], stderr = [], sent = [], ended = False \<rparr>"
          and c' = "\<lparr> stdout = [], stderr = [], sent = [], ended = False \<rparr>"
          and sock = "''/tmp/vm.sock''" and payload = "[]"]
  by (simp add: main_def encode_frame_def writeUInt32BE_def MAX_FRAME_def
        frame_callback_def onMessage_def socket_end_def console_error_def show_int_def
        show_digit digit_def)



lemma tasks_set_pc:
  "tasks (set_pc t p s) =
     (case tasks s t of None \<Rightarrow> tasks s | Some tk \<Rightarrow> (tasks s)(t \<mapsto> tk\<lparr> tpc := p \<rparr>))"
  by (simp add: set_pc_def split: option.splits)

lemma set_pc_fields [simp]:
  "pool (set_pc t p s) = pool s"
  "pending (set_pc t p s) = pending s"
  "creations (set_pc t p s) = creations s"
  "vm_entries (set_pc t p s) = vm_entries s"
  by (simp_all add: set_pc_def split: option.splits)

lemma holds_set_pc:
  "holds (set_pc t p s) e t' =
     (if t' = t \<and> tasks s t \<noteq> None then p = AwaitAcquire e Granted \<or> p = InCallback e
      else holds s e t')"
  by (auto simp: holds_def tasks_set_pc split: option.splits)

lemma waits_set_pc:
  "waits (set_pc t p s) e t' =
     (if t' = t \<and> tasks s t \<noteq> None then p = AwaitAcquire e Queued else waits s e t')"
  by (auto simp: waits_def tasks_set_pc split: option.splits)

lemma holds_cong: "tasks s' = tasks s \<Longrightarrow> holds s' = holds s"
  by (intro ext) (simp add: holds_def)

lemma waits_cong: "tasks s' = tasks s \<Longrightarrow> waits s' = waits s"
  by (intro ext) (simp add: waits_def)

lemma gate_inv_init: "gate_inv fixture_init"
  by (simp add: gate_inv_def fixture_init_def holds_def waits_def)

lemma gate_inv_tables:
  assumes "gate_inv s" and "tasks s' = tasks s" and "vm_entries s' = vm_entries s"
    and "creations s' = creations s"
  shows "gate_inv s'"
proof -
  have h: "holds s' = holds s" "waits s' = waits s"
    using assms(2) by (rule holds_cong, rule waits_cong)
  show ?thesis
    using assms(1) unfolding gate_inv_def sem_ok_def h assms(3) assms(4) .
qed

lemma sem_ok_cong:
  "holds s' e = holds s e \<Longrightarrow> waits s' e = waits s e \<Longrightarrow> sem_ok s' e sem = sem_ok s e sem"
  by (simp add: sem_ok_def)

lemma gate_invD:
  assumes "gate_inv s"
  shows "vm_entries s e = Some sem \<Longrightarrow> sem_ok s e sem"
    and "holds s e t \<Longrightarrow> vm_entries s e \<noteq> None"
    and "waits s e t \<Longrightarrow> vm_entries s e \<noteq> None"
    and "vm_entries s e \<noteq> None \<Longrightarrow> e < length (creations s) \<and> cstatus (creations s ! e) = Created"
  using assms unfolding gate_inv_def by blast+

lemma gate_invI:
  assumes "\<And>e sem. vm_entries s e = Some sem \<Longrightarrow> sem_ok s e sem"
    and "\<And>e t. holds s e t \<or> waits s e t \<Longrightarrow> vm_entries s e \<noteq> None"
    and "\<And>e. vm_entries s e \<noteq> None \<Longrightarrow>
           e < length (creations s) \<and> cstatus (creations s ! e) = Created"
  shows "gate_inv s"
  using assms unfolding gate_inv_def by blast

lemma gate_inv_call:
  assumes inv: "gate_inv s" and step: "withVm_call t key s = Some s'"
  shows "gate_inv s'"
proof -
  from step have fresh: "tasks s t = None"
    by (simp add: withVm_call_def split: if_splits)
  obtain p s1 where ge: "getEntry key s = (p, s1)" by (cases "getEntry key s")
  from ge have s1: "tasks s1 = tasks s" "vm_entries s1 = vm_entries s"
    "creations s1 = creations s \<or> creations s1 = creations s @ [\<lparr> ckey = key, cstatus = InFlight \<rparr>]"
    by (auto simp: getEntry_def Let_def split: option.splits)
  from step ge fresh have s': "s' = s1\<lparr> tasks := (tasks s1)(t \<mapsto> \<lparr> tkey = key, tpc = AwaitEntry p \<rparr>) \<rparr>"
    by (simp add: withVm_call_def)
  have h: "holds s' e = holds s e" "waits s' e = waits s e" for e
    using fresh by (auto simp: s' s1 holds_def waits_def fun_eq_iff)
  have v: "vm_entries s' = vm_entries s" by (simp add: s' s1)
  show ?thesis
  proof (rule gate_invI)
    fix e sem assume "vm_entries s' e = Some sem"
    then show "sem_ok s' e sem"
      using gate_invD(1) [OF inv, of e sem] unfolding sem_ok_cong [OF h] by (simp add: v)
  next
    fix e t' assume "holds s' e t' \<or> waits s' e t'"
    then show "vm_entries s' e \<noteq> None"
      using gate_invD(2,3) [OF inv, of e t'] by (auto simp: h v)
  next
    fix e assume "vm_entries s' e \<noteq> None"
    then have "e < length (creations s) \<and> cstatus (creations s ! e) = Created"
      using gate_invD(4) [OF inv, of e] by (simp add: v)
    moreover have "creations s' = creations s1" by (simp add: s')
    ultimately show "e < length (creations s') \<and> cstatus (creations s' ! e) = Created"
      using s1(3) by (auto simp: nth_append)
  qed
qed

lemma gate_inv_create_settles:
  assumes inv: "gate_inv s" and step: "create_settles c ok s = Some s'"
  shows "gate_inv s'"
proof -
  from step have c: "c < length (creations s)" "cstatus (creations s ! c) = InFlight"
    by (simp_all add: create_settles_def split: if_splits)
  have noent: "vm_entries s c = None"
    using gate_invD(4) [OF inv, of c] c(2) by (cases "vm_entries s c") auto
  have tk: "tasks s' = tasks s"
    using step by (auto simp: create_settles_def Let_def split: if_splits)
  have h: "holds s' = holds s" "waits s' = waits s"
    using tk by (rule holds_cong, rule waits_cong)
  have cr: "length (creations s') = length (creations s)"
    "\<And>e. e \<noteq> c \<Longrightarrow> creations s' ! e = creations s ! e"
    using step by (auto simp: create_settles_def Let_def split: if_splits)
  show ?thesis
  proof (cases ok)
    case True
    with step c have v: "vm_entries s' = (vm_entries s)(c \<mapsto> new_Semaphore 1)"
      and st: "cstatus (creations s' ! c) = Created"
      by (auto simp: create_settles_def Let_def)
    have idle: "\<not> holds s c t" "\<not> waits s c t" for t
      using gate_invD(2,3) [OF inv, of c t] noent by auto
    show ?thesis
    proof (rule gate_invI)
      fix e sem assume es: "vm_entries s' e = Some sem"
      show "sem_ok s' e sem"
      proof (cases "e = c")
        case True
        with es have "sem = new_Semaphore 1" by (simp add: v)
        then show ?thesis using idle by (simp add: True sem_ok_def h new_Semaphore_def)
      next
        case False
        with es have "vm_entries s e = Some sem" by (simp add: v)
        from gate_invD(1) [OF inv this] show ?thesis by (simp add: sem_ok_def h)
      qed
    next
      fix e t assume "holds s' e t \<or> waits s' e t"
      then show "vm_entries s' e \<noteq> None"
        using gate_invD(2,3) [OF inv, of e t] by (auto simp: h v)
    next
      fix e assume "vm_entries s' e \<noteq> None"
      then show "e < length (creations s') \<and> cstatus (creations s' ! e) = Created"
        using gate_invD(4) [OF inv, of e] c(1) st cr by (cases "e = c") (auto simp: v)
    qed
  next
    case False
    with step c have v: "vm_entries s' = vm_entries s"
      by (auto simp: create_settles_def Let_def)
    show ?thesis
    proof (rule gate_invI)
      fix e sem assume "vm_entries s' e = Some sem"
      then show "sem_ok s' e sem"
        using gate_invD(1) [OF inv, of e sem] by (simp add: v sem_ok_def h)
    next
      fix e t assume "holds s' e t \<or> waits s' e t"
      then show "vm_entries s' e \<noteq> None"
        using gate_invD(2,3) [OF inv, of e t] by (auto simp: h v)
    next
      fix e assume "vm_entries s' e \<noteq> None"
      then show "e < length (creations s') \<and> cstatus (creations s' ! e) = Created"
        using gate_invD(4) [OF inv, of e] noent cr by (cases "e = c") (auto simp: v)
    qed
  qed
qed

lemma gate_inv_close:
  assumes "gate_inv s"
  shows "gate_inv (closeVm key s)" and "gate_inv (closeAllVms s)"
proof -
  show "gate_inv (closeVm key s)"
    by (rule gate_inv_tables [OF assms]) (simp_all add: closeVm_def split: option.splits)
  show "gate_inv (closeAllVms s)"
    by (rule gate_inv_tables [OF assms]) (simp_all add: closeAllVms_def)
qed

lemma gate_inv_same:
  assumes "gate_inv s" and "holds s' = holds s" and "waits s' = waits s"
    and "vm_entries s' = vm_entries s" and "creations s' = creations s"
  shows "gate_inv s'"
  using assms(1) unfolding gate_inv_def sem_ok_def assms(2-5) .

lemma gate_inv_acquired:
  assumes inv: "gate_inv s" and step: "withVm_acquired t s = Some s'"
  shows "gate_inv s'"
proof -
  from step obtain tk e where tk: "tasks s t = Some tk" "tpc tk = AwaitAcquire e Granted"
    and s': "s' = set_pc t (InCallback e) s"
    by (auto simp: withVm_acquired_def split: option.splits pc.splits grant.splits)
  have h: "holds s' = holds s" "waits s' = waits s"
    using tk by (auto simp: s' holds_def waits_def tasks_set_pc fun_eq_iff split: option.splits)
  show ?thesis
    by (rule gate_inv_same [OF inv h]) (simp_all add: s')
qed

lemma holds_vm_entries_update [simp]: "holds (s\<lparr> vm_entries := x \<rparr>) = holds s"
  by (rule holds_cong) simp

lemma waits_vm_entries_update [simp]: "waits (s\<lparr> vm_entries := x \<rparr>) = waits s"
  by (rule waits_cong) simp

lemma sem_okD:
  assumes "sem_ok s e sem"
  shows "count sem \<le> 1"
    and "count sem = 1 \<Longrightarrow> \<not> holds s e t"
    and "count sem = 1 \<Longrightarrow> queue sem = []"
    and "count sem = 0 \<Longrightarrow> \<exists>t. holds s e t"
    and "holds s e t1 \<Longrightarrow> holds s e t2 \<Longrightarrow> t1 = t2"
    and "distinct (queue sem)"
    and "t \<in> set (queue sem) \<longleftrightarrow> waits s e t"
  using assms unfolding sem_ok_def by blast+

lemma sem_okI:
  assumes "count sem \<le> 1"
    and "count sem = 1 \<Longrightarrow> (\<forall>t. \<not> holds s e t) \<and> queue sem = []"
    and "count sem = 0 \<Longrightarrow> \<exists>t. holds s e t"
    and "\<And>t1 t2. holds s e t1 \<Longrightarrow> holds s e t2 \<Longrightarrow> t1 = t2"
    and "distinct (queue sem)"
    and "\<And>t. t \<in> set (queue sem) \<longleftrightarrow> waits s e t"
  shows "sem_ok s e sem"
  using assms unfolding sem_ok_def by blast

lemma gate_inv_entry:
  assumes inv: "gate_inv s" and step: "withVm_entry t s = Some s'"
  shows "gate_inv s'"
proof -
  from step obtain tk p where tk: "tasks s t = Some tk" "tpc tk = AwaitEntry p"
    by (auto simp: withVm_entry_def split: option.splits pc.splits)
  have idle: "\<not> holds s e t" "\<not> waits s e t" for e
    using tk by (simp_all add: holds_def waits_def)
  show ?thesis
  proof (cases "promise_state s p")
    case Unsettled
    with step tk show ?thesis by (simp add: withVm_entry_def)
  next
    case Fails
    with step tk have s': "s' = set_pc t (Done Raised) s" by (simp add: withVm_entry_def)
    have "holds s' e' t' = holds s e' t'" "waits s' e' t' = waits s e' t'" for e' t'
      using idle [of e'] tk(1) by (simp_all add: s' holds_set_pc waits_set_pc)
    then have h: "holds s' = holds s" "waits s' = waits s" by (simp_all add: fun_eq_iff)
    show ?thesis by (rule gate_inv_same [OF inv h]) (simp_all add: s')
  next
    case (Yields e)
    with step tk obtain sem where sem: "vm_entries s e = Some sem"
      by (auto simp: withVm_entry_def split: option.splits)
    note ok = sem_okD [OF gate_invD(1) [OF inv sem]]
    obtain g sem' where acq: "acquire t sem = (g, sem')" by (cases "acquire t sem")
    from step tk Yields sem acq
    have s': "s' = set_pc t (AwaitAcquire e g) (s\<lparr> vm_entries := (vm_entries s)(e \<mapsto> sem') \<rparr>)"
      by (simp add: withVm_entry_def)
    have v: "vm_entries s' = (vm_entries s)(e \<mapsto> sem')" by (simp add: s')
    have cr: "creations s' = creations s" by (simp add: s')
    have hs: "holds s' e' t' = (if t' = t then e' = e \<and> g = Granted else holds s e' t')" for e' t'
      using tk(1) by (auto simp: s' holds_set_pc)
    have ws: "waits s' e' t' = (if t' = t then e' = e \<and> g = Queued else waits s e' t')" for e' t'
      using tk(1) by (auto simp: s' waits_set_pc)
    have other: "sem_ok s' e' sem2" if "e' \<noteq> e" "vm_entries s e' = Some sem2" for e' sem2
    proof -
      have hw: "holds s' e' = holds s e'" "waits s' e' = waits s e'"
        using that(1) idle [of e'] by (auto simp: hs ws fun_eq_iff)
      from gate_invD(1) [OF inv that(2)] show ?thesis
        unfolding sem_ok_cong [OF hw] .
    qed
    have this_one: "sem_ok s' e sem'"
    proof (cases "count sem > 0")
      case True
      with acq have g: "g = Granted" and sem': "sem' = sem\<lparr> count := count sem - 1 \<rparr>"
        by (auto simp: acquire_def)
      from True ok(1) have c1: "count sem = 1" by simp
      have none: "\<not> holds s e t'" for t' by (rule ok(2) [OF c1])
      have q: "queue sem = []" by (rule ok(3) [OF c1])
      have w: "waits s' e t' = waits s e t'" for t' using idle(2) [of e] by (simp add: ws g)
      show ?thesis
      proof (rule sem_okI)
        show "count sem' \<le> 1" by (simp add: sem' c1)
        show "(\<forall>t. \<not> holds s' e t) \<and> queue sem' = []" if "count sem' = 1"
          using that by (simp add: sem' c1)
        show "\<exists>t. holds s' e t" by (rule exI [of _ t]) (simp add: hs g)
        show "t1 = t2" if "holds s' e t1" "holds s' e t2" for t1 t2
          using that none by (simp add: hs g split: if_splits)
        show "distinct (queue sem')" by (simp add: sem' q)
        show "t' \<in> set (queue sem') \<longleftrightarrow> waits s' e t'" for t'
          using ok(7) [of t'] by (simp add: sem' w)
      qed
    next
      case False
      with acq have g: "g = Queued" and sem': "sem' = sem\<lparr> queue := queue sem @ [t] \<rparr>"
        by (auto simp: acquire_def)
      from False have c0: "count sem = 0" by simp
      have hh: "holds s' e t' = holds s e t'" for t' using idle(1) [of e] by (simp add: hs g)
      have tq: "t \<notin> set (queue sem)" using ok(7) [of t] idle(2) [of e] by simp
      show ?thesis
      proof (rule sem_okI)
        show "count sem' \<le> 1" by (simp add: sem' c0)
        show "(\<forall>t. \<not> holds s' e t) \<and> queue sem' = []" if "count sem' = 1"
          using that by (simp add: sem' c0)
        show "\<exists>t. holds s' e t" using ok(4) [OF c0] by (simp add: hh)
        show "t1 = t2" if "holds s' e t1" "holds s' e t2" for t1 t2
          using that ok(5) [of t1 t2] by (simp add: hh)
        show "distinct (queue sem')" using ok(6) tq by (simp add: sem')
        show "t' \<in> set (queue sem') \<longleftrightarrow> waits s' e t'" for t'
          using ok(7) [of t'] by (auto simp: sem' ws g)
      qed
    qed
    show ?thesis
    proof (rule gate_invI)
      fix e' sem2 assume "vm_entries s' e' = Some sem2"
      then show "sem_ok s' e' sem2"
        using other [of e' sem2] this_one by (cases "e' = e") (auto simp: v)
    next
      fix e' t' assume "holds s' e' t' \<or> waits s' e' t'"
      then show "vm_entries s' e' \<noteq> None"
        using gate_invD(2,3) [OF inv, of e' t'] sem
        by (cases "e' = e") (auto simp: v hs ws split: if_splits)
    next
      fix e' assume "vm_entries s' e' \<noteq> None"
      then show "e' < length (creations s') \<and> cstatus (creations s' ! e') = Created"
        using gate_invD(4) [OF inv, of e'] sem by (cases "e' = e") (auto simp: v cr)
    qed
  qed
qed

lemma gate_inv_finally:
  assumes inv: "gate_inv s" and step: "withVm_finally t r s = Some s'"
  shows "gate_inv s'"
proof -
  from step obtain tk e where tk: "tasks s t = Some tk" "tpc tk = InCallback e"
    by (auto simp: withVm_finally_def split: option.splits pc.splits)
  with step obtain sem where sem: "vm_entries s e = Some sem"
    by (auto simp: withVm_finally_def split: option.splits)
  note ok = sem_okD [OF gate_invD(1) [OF inv sem]]
  have ht: "holds s e t" using tk by (simp add: holds_def)
  have nh: "\<not> holds s e' t" if "e' \<noteq> e" for e' using tk that by (simp add: holds_def)
  have nw: "\<not> waits s e' t" for e' using tk by (simp add: waits_def)
  have c0: "count sem = 0" using ok(1) ok(2) [of t] ht by (cases "count sem = 1") auto
  have only: "t' = t" if "holds s e t'" for t' using ok(5) [OF that ht] .
  obtain woken sem' where rel: "release sem = (woken, sem')" by (cases "release sem")
  define s1 where "s1 = s\<lparr> vm_entries := (vm_entries s)(e \<mapsto> sem') \<rparr>"
  define s2 where "s2 = (case woken of None \<Rightarrow> s1 | Some n \<Rightarrow> set_pc n (AwaitAcquire e Granted) s1)"
  from step tk sem rel have s': "s' = set_pc t (Done r) s2"
    by (cases woken) (auto simp: withVm_finally_def s1_def s2_def Let_def)
  have v: "vm_entries s' = (vm_entries s)(e \<mapsto> sem')"
    by (simp add: s' s2_def s1_def split: option.splits)
  have cr: "creations s' = creations s"
    by (simp add: s' s2_def s1_def split: option.splits)
  have t2: "tasks s2 t \<noteq> None"
    using tk(1) by (auto simp: s2_def s1_def tasks_set_pc split: option.splits)
  show ?thesis
  proof (cases "queue sem")
    case Nil
    with rel have w: "woken = None" and sem': "sem' = sem\<lparr> count := count sem + 1 \<rparr>"
      by (auto simp: release_def)
    have hs: "holds s' e' t' = (if t' = t then False else holds s e' t')" for e' t'
      using t2 by (simp add: s' holds_set_pc) (simp add: s2_def w s1_def)
    have ws: "waits s' e' t' = waits s e' t'" for e' t'
      using t2 nw [of e'] by (simp add: s' waits_set_pc) (simp add: s2_def w s1_def)
    have this_one: "sem_ok s' e sem'"
    proof (rule sem_okI)
      show "count sem' \<le> 1" by (simp add: sem' c0)
      show "(\<forall>t. \<not> holds s' e t) \<and> queue sem' = []" if "count sem' = 1"
        using only by (auto simp: hs sem' Nil)
      show "\<exists>t. holds s' e t" if "count sem' = 0" using that by (simp add: sem')
      show "t1 = t2" if "holds s' e t1" "holds s' e t2" for t1 t2
        using that only by (auto simp: hs split: if_splits)
      show "distinct (queue sem')" by (simp add: sem' Nil)
      show "t' \<in> set (queue sem') \<longleftrightarrow> waits s' e t'" for t'
        using ok(7) [of t'] by (simp add: sem' ws)
    qed
    have other: "sem_ok s' e' sem2" if "e' \<noteq> e" "vm_entries s e' = Some sem2" for e' sem2
    proof -
      have hw: "holds s' e' = holds s e'" "waits s' e' = waits s e'"
        using nh [OF that(1)] by (auto simp: hs ws fun_eq_iff)
      from gate_invD(1) [OF inv that(2)] show ?thesis
        unfolding sem_ok_cong [OF hw] .
    qed
    show ?thesis
    proof (rule gate_invI)
      fix e' sem2 assume "vm_entries s' e' = Some sem2"
      then show "sem_ok s' e' sem2"
        using other [of e' sem2] this_one by (cases "e' = e") (auto simp: v)
    next
      fix e' t' assume "holds s' e' t' \<or> waits s' e' t'"
      then show "vm_entries s' e' \<noteq> None"
        using gate_invD(2,3) [OF inv, of e' t']
        by (cases "e' = e") (auto simp: v hs ws split: if_splits)
    next
      fix e' assume "vm_entries s' e' \<noteq> None"
      then show "e' < length (creations s') \<and> cstatus (creations s' ! e') = Created"
        using gate_invD(4) [OF inv, of e'] sem by (cases "e' = e") (auto simp: v cr)
    qed
  next
    case (Cons n rest)
    with rel have w: "woken = Some n" and sem': "sem' = sem\<lparr> queue := rest \<rparr>"
      by (auto simp: release_def)
    have wn: "waits s e n" using ok(7) [of n] by (simp add: Cons)
    then obtain tkn where tkn: "tasks s n = Some tkn" "tpc tkn = AwaitAcquire e Queued"
      by (auto simp: waits_def split: option.splits)
    have nt: "n \<noteq> t" using tkn tk by auto
    have nhn: "\<not> holds s e' n" for e' using tkn by (simp add: holds_def)
    have wn': "waits s e' n \<longleftrightarrow> e' = e" for e' using tkn by (auto simp: waits_def)
    have s2: "s2 = set_pc n (AwaitAcquire e Granted) s1" by (simp add: s2_def w)
    have n1: "tasks s1 n \<noteq> None" using tkn by (simp add: s1_def)
    have hs2: "holds s2 e' t' = (if t' = n then e' = e else holds s e' t')" for e' t'
      using n1 by (simp add: s2 holds_set_pc) (auto simp: s1_def)
    have ws2: "waits s2 e' t' = (if t' = n then False else waits s e' t')" for e' t'
      using n1 by (simp add: s2 waits_set_pc) (simp add: s1_def)
    have hs: "holds s' e' t' = (if t' = t then False else if t' = n then e' = e else holds s e' t')"
      for e' t'
      using t2 by (simp add: s' holds_set_pc hs2)
    have ws: "waits s' e' t' = (if t' = n then False else waits s e' t')" for e' t'
      using t2 nw [of e'] nt by (simp add: s' waits_set_pc ws2)
    have dq: "distinct (n # rest)" using ok(6) by (simp add: Cons)
    have this_one: "sem_ok s' e sem'"
    proof (rule sem_okI)
      show "count sem' \<le> 1" by (simp add: sem' c0)
      show "(\<forall>t. \<not> holds s' e t) \<and> queue sem' = []" if "count sem' = 1"
        using that by (simp add: sem' c0)
      show "\<exists>t. holds s' e t" by (rule exI [of _ n]) (simp add: hs nt)
      show "t1 = t2" if "holds s' e t1" "holds s' e t2" for t1 t2
        using that only by (auto simp: hs split: if_splits)
      show "distinct (queue sem')" using dq by (simp add: sem')
      show "t' \<in> set (queue sem') \<longleftrightarrow> waits s' e t'" for t'
        using ok(7) [of t'] dq by (auto simp: sem' ws Cons)
    qed
    have other: "sem_ok s' e' sem2" if "e' \<noteq> e" "vm_entries s e' = Some sem2" for e' sem2
    proof -
      have hw: "holds s' e' = holds s e'" "waits s' e' = waits s e'"
        using nh [OF that(1)] nhn [of e'] wn' [of e'] that(1) by (auto simp: hs ws fun_eq_iff)
      from gate_invD(1) [OF inv that(2)] show ?thesis
        unfolding sem_ok_cong [OF hw] .
    qed
    show ?thesis
    proof (rule gate_invI)
      fix e' sem2 assume "vm_entries s' e' = Some sem2"
      then show "sem_ok s' e' sem2"
        using other [of e' sem2] this_one by (cases "e' = e") (auto simp: v)
    next
      fix e' t' assume "holds s' e' t' \<or> waits s' e' t'"
      then show "vm_entries s' e' \<noteq> None"
        using gate_invD(2,3) [OF inv, of e' t']
        by (cases "e' = e") (auto simp: v hs ws split: if_splits)
    next
      fix e' assume "vm_entries s' e' \<noteq> None"
      then show "e' < length (creations s') \<and> cstatus (creations s' ! e') = Created"
        using gate_invD(4) [OF inv, of e'] sem by (cases "e' = e") (auto simp: v cr)
    qed
  qed
qed

lemma table_invD:
  assumes "table_inv s"
  shows "pending s k = Some c \<Longrightarrow>
           c < length (creations s) \<and> ckey (creations s ! c) = k \<and>
           cstatus (creations s ! c) = InFlight"
    and "pool s k = Some e \<Longrightarrow> made s k e \<and> pending s k = None"
    and "tasks s t = Some tk \<Longrightarrow> pc_ok s (tkey tk) (tpc tk)"
  using assms unfolding table_inv_def by blast+

lemma table_invI:
  assumes "\<And>k c. pending s k = Some c \<Longrightarrow>
           c < length (creations s) \<and> ckey (creations s ! c) = k \<and>
           cstatus (creations s ! c) = InFlight"
    and "\<And>k e. pool s k = Some e \<Longrightarrow> made s k e \<and> pending s k = None"
    and "\<And>t tk. tasks s t = Some tk \<Longrightarrow> pc_ok s (tkey tk) (tpc tk)"
  shows "table_inv s"
  using assms unfolding table_inv_def by blast

lemma made_extends: "extends s s' \<Longrightarrow> made s k e \<Longrightarrow> made s' k e"
  by (auto simp: made_def extends_def)

lemma pc_ok_extends: "extends s s' \<Longrightarrow> pc_ok s k p \<Longrightarrow> pc_ok s' k p"
  by (auto simp: pc_ok_def extends_def made_def split: pc.splits entry_promise.splits)

lemma extends_refl: "creations s' = creations s \<Longrightarrow> extends s s'"
  by (simp add: extends_def)

lemma getEntry_cases:
  assumes "getEntry key s = (p, s')"
  obtains (hit) e where "pool s key = Some e" "p = Resolved e" "s' = s"
  | (inflight) c where "pool s key = None" "pending s key = Some c" "p = Awaiting c" "s' = s"
  | (create) "pool s key = None" "pending s key = None" "p = Awaiting (length (creations s))"
      "s' = s\<lparr> creations := creations s @ [\<lparr> ckey = key, cstatus = InFlight \<rparr>],
               pending := (pending s)(key \<mapsto> length (creations s)) \<rparr>"
  using assms by (auto simp: getEntry_def Let_def split: option.splits)

lemma withVm_call_cases:
  assumes "withVm_call t key s = Some s'"
  obtains p s1 where "tasks s t = None" "getEntry key s = (p, s1)"
    "s' = s1\<lparr> tasks := (tasks s1)(t \<mapsto> \<lparr> tkey = key, tpc = AwaitEntry p \<rparr>) \<rparr>"
  using assms by (auto simp: withVm_call_def split: if_splits prod.splits)

lemma create_settles_cases:
  assumes "create_settles c ok s = Some s'"
  obtains (success) "ok" "c < length (creations s)" "cstatus (creations s ! c) = InFlight"
      "s' = s\<lparr> creations := (creations s)[c := \<lparr> ckey = ckey (creations s ! c), cstatus = Created \<rparr>],
               vm_entries := (vm_entries s)(c \<mapsto> new_Semaphore 1),
               pool := (pool s)(ckey (creations s ! c) \<mapsto> c),
               pending := (pending s)(ckey (creations s ! c) := None) \<rparr>"
  | (failure) "\<not> ok" "c < length (creations s)" "cstatus (creations s ! c) = InFlight"
      "s' = s\<lparr> creations := (creations s)[c := \<lparr> ckey = ckey (creations s ! c), cstatus = Failed \<rparr>],
               pending := (pending s)(ckey (creations s ! c) := None) \<rparr>"
  using assms by (auto simp: create_settles_def Let_def split: if_splits)

lemma step_extends:
  assumes "pool_step ev s = Some s'"
  shows "extends s s'"
proof (cases ev)
  case (Call t key)
  with assms obtain p s1 where "getEntry key s = (p, s1)"
    and s': "s' = s1\<lparr> tasks := (tasks s1)(t \<mapsto> \<lparr> tkey = key, tpc = AwaitEntry p \<rparr>) \<rparr>"
    by (auto elim: withVm_call_cases)
  then show ?thesis
    by (cases rule: getEntry_cases) (auto simp: extends_def nth_append)
next
  case (CreateSettles c ok)
  with assms have "create_settles c ok s = Some s'" by simp
  then show ?thesis
    by (cases rule: create_settles_cases) (auto simp: extends_def nth_list_update)
next
  case (GotEntry t)
  with assms have "creations s' = creations s"
    by (auto simp: withVm_entry_def split: option.splits pc.splits settled.splits prod.splits)
  then show ?thesis by (rule extends_refl)
next
  case (Acquired t)
  with assms have "creations s' = creations s"
    by (auto simp: withVm_acquired_def split: option.splits pc.splits grant.splits)
  then show ?thesis by (rule extends_refl)
next
  case (CallbackSettles t r)
  with assms have "creations s' = creations s"
    by (auto simp: withVm_finally_def Let_def split: option.splits pc.splits prod.splits)
  then show ?thesis by (rule extends_refl)
next
  case (CloseVm key)
  with assms have "creations s' = creations s"
    by (auto simp: closeVm_def split: option.splits)
  then show ?thesis by (rule extends_refl)
next
  case CloseAllVms
  with assms have "creations s' = creations s" by (auto simp: closeAllVms_def)
  then show ?thesis by (rule extends_refl)
qed

lemma table_inv_init: "table_inv fixture_init"
  by (simp add: table_inv_def fixture_init_def)

lemma table_inv_call:
  assumes inv: "table_inv s" and step: "withVm_call t key s = Some s'"
  shows "table_inv s'"
proof -
  from step obtain p s1 where fresh: "tasks s t = None" and ge: "getEntry key s = (p, s1)"
    and s': "s' = s1\<lparr> tasks := (tasks s1)(t \<mapsto> \<lparr> tkey = key, tpc = AwaitEntry p \<rparr>) \<rparr>"
    by (rule withVm_call_cases)
  have ext: "extends s s'" using step_extends [of "Call t key" s s'] step by simp
  have old: "pc_ok s' (tkey tk) (tpc tk)" if "tasks s t' = Some tk" for t' tk
    using table_invD(3) [OF inv that] ext by (rule pc_ok_extends [rotated])
  from ge show ?thesis
  proof (cases rule: getEntry_cases)
    case (hit e)
    have new: "pc_ok s' key (AwaitEntry p)"
      using table_invD(2) [OF inv hit(1)] made_extends [OF ext] by (simp add: pc_ok_def hit(2))
    show ?thesis
    proof (rule table_invI)
      fix k c assume "pending s' k = Some c"
      then show "c < length (creations s') \<and> ckey (creations s' ! c) = k \<and>
           cstatus (creations s' ! c) = InFlight"
        using table_invD(1) [OF inv, of k c] by (simp add: s' hit(3))
    next
      fix k e' assume "pool s' k = Some e'"
      then show "made s' k e' \<and> pending s' k = None"
        using table_invD(2) [OF inv, of k e'] by (simp add: s' hit(3) made_def)
    next
      fix t' tk assume "tasks s' t' = Some tk"
      then show "pc_ok s' (tkey tk) (tpc tk)"
        using old [of t' tk] new by (cases "t' = t") (auto simp: s' hit(3))
    qed
  next
    case (inflight c)
    have new: "pc_ok s' key (AwaitEntry p)"
      using table_invD(1) [OF inv inflight(2)] by (simp add: pc_ok_def inflight(3,4) s')
    show ?thesis
    proof (rule table_invI)
      fix k c assume "pending s' k = Some c"
      then show "c < length (creations s') \<and> ckey (creations s' ! c) = k \<and>
           cstatus (creations s' ! c) = InFlight"
        using table_invD(1) [OF inv, of k c] by (simp add: s' inflight(4))
    next
      fix k e' assume "pool s' k = Some e'"
      then show "made s' k e' \<and> pending s' k = None"
        using table_invD(2) [OF inv, of k e'] by (simp add: s' inflight(4) made_def)
    next
      fix t' tk assume "tasks s' t' = Some tk"
      then show "pc_ok s' (tkey tk) (tpc tk)"
        using old [of t' tk] new by (cases "t' = t") (auto simp: s' inflight(4))
    qed
  next
    case create
    have cr: "creations s' = creations s @ [\<lparr> ckey = key, cstatus = InFlight \<rparr>]"
      and pe: "pending s' = (pending s)(key \<mapsto> length (creations s))"
      and po: "pool s' = pool s"
      and ta: "tasks s' = (tasks s)(t \<mapsto> \<lparr> tkey = key, tpc = AwaitEntry p \<rparr>)"
      by (simp_all add: s' create(4))
    have new: "pc_ok s' key (AwaitEntry p)"
      by (simp add: pc_ok_def create(3) cr)
    show ?thesis
    proof (rule table_invI)
      fix k c assume "pending s' k = Some c"
      then show "c < length (creations s') \<and> ckey (creations s' ! c) = k \<and>
           cstatus (creations s' ! c) = InFlight"
        using table_invD(1) [OF inv, of k c]
        by (cases "k = key") (auto simp: pe cr nth_append)
    next
      fix k e' assume pk: "pool s' k = Some e'"
      then have "k \<noteq> key" using create(1) by (auto simp: po)
      with pk show "made s' k e' \<and> pending s' k = None"
        using table_invD(2) [OF inv, of k e'] made_extends [OF ext, of k e'] by (simp add: po pe)
    next
      fix t' tk assume "tasks s' t' = Some tk"
      then show "pc_ok s' (tkey tk) (tpc tk)"
        using old [of t' tk] new by (cases "t' = t") (auto simp: ta)
    qed
  qed
qed

lemma table_inv_create_settles:
  assumes inv: "table_inv s" and step: "create_settles c ok s = Some s'"
  shows "table_inv s'"
proof -
  have ext: "extends s s'" using step_extends [of "CreateSettles c ok" s s'] step by simp
  define kc where "kc = ckey (creations s ! c)"
  from step have c: "c < length (creations s)" "cstatus (creations s ! c) = InFlight"
    and pe: "pending s' = (pending s)(kc := None)"
    and ta: "tasks s' = tasks s"
    and po: "pool s' = (if ok then (pool s)(kc \<mapsto> c) else pool s)"
    and st: "cstatus (creations s' ! c) = (if ok then Created else Failed)"
    and len: "length (creations s') = length (creations s)"
    and oth: "\<And>c'. c' \<noteq> c \<Longrightarrow> creations s' ! c' = creations s ! c'"
    and ck: "ckey (creations s' ! c) = kc"
    by (cases rule: create_settles_cases; simp add: kc_def)+
  show ?thesis
  proof (rule table_invI)
    fix k c' assume p: "pending s' k = Some c'"
    then have "k \<noteq> kc" "pending s k = Some c'" by (auto simp: pe split: if_splits)
    with table_invD(1) [OF inv this(2)] have "c' \<noteq> c" by (auto simp: kc_def)
    with table_invD(1) [OF inv \<open>pending s k = Some c'\<close>]
    show "c' < length (creations s') \<and> ckey (creations s' ! c') = k \<and>
           cstatus (creations s' ! c') = InFlight"
      by (simp add: len oth)
  next
    fix k e assume p: "pool s' k = Some e"
    show "made s' k e \<and> pending s' k = None"
    proof (cases "ok \<and> k = kc")
      case True
      with p have "e = c" by (simp add: po)
      with True c show ?thesis by (simp add: made_def len st ck pe)
    next
      case False
      with p have "pool s k = Some e" by (auto simp: po split: if_splits)
      from table_invD(2) [OF inv this] made_extends [OF ext, of k e]
      show ?thesis by (simp add: pe)
    qed
  next
    fix t tk assume "tasks s' t = Some tk"
    then show "pc_ok s' (tkey tk) (tpc tk)"
      using table_invD(3) [OF inv, of t tk] pc_ok_extends [OF ext] by (simp add: ta)
  qed
qed

lemma table_inv_close:
  assumes inv: "table_inv s"
  shows "table_inv (closeVm key s)" and "table_inv (closeAllVms s)"
proof -
  show "table_inv (closeVm key s)"
  proof (rule table_invI)
    fix k c assume "pending (closeVm key s) k = Some c"
    then show "c < length (creations (closeVm key s)) \<and> ckey (creations (closeVm key s) ! c) = k \<and>
           cstatus (creations (closeVm key s) ! c) = InFlight"
      using table_invD(1) [OF inv, of k c]
      by (auto simp: closeVm_def split: option.splits if_splits)
  next
    fix k e assume "pool (closeVm key s) k = Some e"
    then show "made (closeVm key s) k e \<and> pending (closeVm key s) k = None"
      using table_invD(2) [OF inv, of k e]
      by (auto simp: closeVm_def made_def split: option.splits if_splits)
  next
    fix t tk assume "tasks (closeVm key s) t = Some tk"
    then show "pc_ok (closeVm key s) (tkey tk) (tpc tk)"
      using table_invD(3) [OF inv, of t tk]
        pc_ok_extends [OF extends_refl, of "closeVm key s" s]
      by (auto simp: closeVm_def split: option.splits)
  qed
  show "table_inv (closeAllVms s)"
  proof (rule table_invI)
    fix k c assume "pending (closeAllVms s) k = Some c"
    then show "c < length (creations (closeAllVms s)) \<and> ckey (creations (closeAllVms s) ! c) = k \<and>
           cstatus (creations (closeAllVms s) ! c) = InFlight"
      by (simp add: closeAllVms_def)
  next
    fix k e assume "pool (closeAllVms s) k = Some e"
    then show "made (closeAllVms s) k e \<and> pending (closeAllVms s) k = None"
      by (simp add: closeAllVms_def)
  next
    fix t tk assume "tasks (closeAllVms s) t = Some tk"
    then show "pc_ok (closeAllVms s) (tkey tk) (tpc tk)"
      using table_invD(3) [OF inv, of t tk]
        pc_ok_extends [OF extends_refl, of "closeAllVms s" s]
      by (auto simp: closeAllVms_def)
  qed
qed

lemma pc_ok_creations: "creations s' = creations s \<Longrightarrow> pc_ok s' k q = pc_ok s k q"
  by (simp add: pc_ok_def made_def split: pc.splits entry_promise.splits)

lemma table_inv_set_pc:
  assumes inv: "table_inv s" and tk: "tasks s t = Some tk" and ok: "pc_ok s (tkey tk) p"
  shows "table_inv (set_pc t p s)"
proof (rule table_invI)
  fix k c assume "pending (set_pc t p s) k = Some c"
  then show "c < length (creations (set_pc t p s)) \<and> ckey (creations (set_pc t p s) ! c) = k \<and>
           cstatus (creations (set_pc t p s) ! c) = InFlight"
    using table_invD(1) [OF inv, of k c] by simp
next
  fix k e assume "pool (set_pc t p s) k = Some e"
  then show "made (set_pc t p s) k e \<and> pending (set_pc t p s) k = None"
    using table_invD(2) [OF inv, of k e] by (simp add: made_def)
next
  have same: "pc_ok (set_pc t p s) k q = pc_ok s k q" for k q
    by (rule pc_ok_creations) simp
  fix t' tk' assume "tasks (set_pc t p s) t' = Some tk'"
  then show "pc_ok (set_pc t p s) (tkey tk') (tpc tk')"
    using table_invD(3) [OF inv, of t' tk'] ok tk
    by (cases "t' = t") (auto simp: tasks_set_pc same)
qed

lemma table_inv_vm_entries:
  assumes "table_inv s"
  shows "table_inv (s\<lparr> vm_entries := x \<rparr>)"
proof -
  have "pc_ok (s\<lparr> vm_entries := x \<rparr>) k q = pc_ok s k q" for k q
    by (rule pc_ok_creations) simp
  with assms show ?thesis by (simp add: table_inv_def made_def)
qed

lemma table_inv_entry:
  assumes inv: "table_inv s" and step: "withVm_entry t s = Some s'"
  shows "table_inv s'"
proof -
  from step obtain tk p where tk: "tasks s t = Some tk" "tpc tk = AwaitEntry p"
    by (auto simp: withVm_entry_def split: option.splits pc.splits)
  note pok = table_invD(3) [OF inv tk(1), unfolded tk(2)]
  show ?thesis
  proof (cases "promise_state s p")
    case Unsettled
    with step tk show ?thesis by (simp add: withVm_entry_def)
  next
    case Fails
    with step tk have s': "s' = set_pc t (Done Raised) s" by (auto simp: withVm_entry_def)
    show ?thesis unfolding s' by (rule table_inv_set_pc [OF inv tk(1)]) (simp add: pc_ok_def)
  next
    case (Yields e)
    with step tk obtain sem g sem' where "vm_entries s e = Some sem" "acquire t sem = (g, sem')"
      and s': "s' = set_pc t (AwaitAcquire e g) (s\<lparr> vm_entries := (vm_entries s)(e \<mapsto> sem') \<rparr>)"
      by (auto simp: withVm_entry_def split: option.splits prod.splits)
    have m: "made s (tkey tk) e"
      using pok Yields
      by (auto simp: pc_ok_def promise_state_def made_def
          split: entry_promise.splits if_splits creation_status.splits)
    show ?thesis unfolding s'
      by (rule table_inv_set_pc [OF table_inv_vm_entries [OF inv]])
        (use tk m in \<open>simp_all add: pc_ok_def made_def\<close>)
  qed
qed

lemma table_inv_acquired:
  assumes inv: "table_inv s" and step: "withVm_acquired t s = Some s'"
  shows "table_inv s'"
proof -
  from step obtain tk e where tk: "tasks s t = Some tk" "tpc tk = AwaitAcquire e Granted"
    and s': "s' = set_pc t (InCallback e) s"
    by (auto simp: withVm_acquired_def split: option.splits pc.splits grant.splits)
  from table_invD(3) [OF inv tk(1)] tk(2) have "pc_ok s (tkey tk) (InCallback e)"
    by (simp add: pc_ok_def)
  then show ?thesis unfolding s' by (rule table_inv_set_pc [OF inv tk(1)])
qed

lemma table_inv_finally:
  assumes ginv: "gate_inv s" and inv: "table_inv s" and step: "withVm_finally t r s = Some s'"
  shows "table_inv s'"
proof -
  from step obtain tk e where tk: "tasks s t = Some tk" "tpc tk = InCallback e"
    by (auto simp: withVm_finally_def split: option.splits pc.splits)
  with step obtain sem where sem: "vm_entries s e = Some sem"
    by (auto simp: withVm_finally_def split: option.splits)
  note ok = sem_okD [OF gate_invD(1) [OF ginv sem]]
  obtain woken sem' where rel: "release sem = (woken, sem')" by (cases "release sem")
  define s1 where "s1 = s\<lparr> vm_entries := (vm_entries s)(e \<mapsto> sem') \<rparr>"
  define s2 where "s2 = (case woken of None \<Rightarrow> s1 | Some n \<Rightarrow> set_pc n (AwaitAcquire e Granted) s1)"
  from step tk sem rel have s': "s' = set_pc t (Done r) s2"
    by (cases woken) (auto simp: withVm_finally_def s1_def s2_def Let_def)
  have i1: "table_inv s1" unfolding s1_def by (rule table_inv_vm_entries [OF inv])
  have t1: "tasks s1 = tasks s" by (simp add: s1_def)
  have i2: "table_inv s2"
  proof (cases woken)
    case None
    then show ?thesis using i1 by (simp add: s2_def)
  next
    case (Some n)
    with rel have "n \<in> set (queue sem)" by (auto simp: release_def split: list.splits)
    then have "waits s e n" using ok(7) [of n] by simp
    then obtain tkn where tkn: "tasks s n = Some tkn" "tpc tkn = AwaitAcquire e Queued"
      by (auto simp: waits_def split: option.splits)
    from table_invD(3) [OF inv tkn(1)] tkn(2) have "pc_ok s1 (tkey tkn) (AwaitAcquire e Granted)"
      by (simp add: pc_ok_def made_def s1_def)
    with i1 tkn(1) show ?thesis
      unfolding s2_def Some by (simp add: table_inv_set_pc t1)
  qed
  have "tasks s2 t \<noteq> None"
    using tk(1) by (auto simp: s2_def t1 tasks_set_pc split: option.splits)
  then obtain tk2 where "tasks s2 t = Some tk2" by auto
  then show ?thesis unfolding s' by (rule table_inv_set_pc [OF i2]) (simp add: pc_ok_def)
qed

lemma pool_inv_step:
  assumes "pool_inv s" and "pool_step ev s = Some s'"
  shows "pool_inv s'"
  using assms
  by (cases ev)
    (auto simp: pool_inv_def
      intro: gate_inv_call gate_inv_create_settles gate_inv_entry gate_inv_acquired
        gate_inv_finally gate_inv_close table_inv_call table_inv_create_settles table_inv_entry
        table_inv_acquired table_inv_finally table_inv_close)

lemma pool_run_append:
  "pool_run (tr @ tr') s = (case pool_run tr s of None \<Rightarrow> None | Some s' \<Rightarrow> pool_run tr' s')"
  by (induction tr arbitrary: s) (auto split: option.splits)

lemma pool_inv_run:
  "pool_inv s \<Longrightarrow> pool_run tr s = Some s' \<Longrightarrow> pool_inv s'"
proof (induction tr arbitrary: s)
  case Nil
  then show ?case by simp
next
  case (Cons ev tr)
  from Cons.prems(2) obtain s1 where "pool_step ev s = Some s1" "pool_run tr s1 = Some s'"
    by (auto split: option.splits)
  with Cons.IH [of s1] pool_inv_step [OF Cons.prems(1)] show ?case by blast
qed

lemma pool_inv_init: "pool_inv fixture_init"
  by (simp add: pool_inv_def gate_inv_init table_inv_init)

lemma set_pc_other: "t' \<noteq> t \<Longrightarrow> tasks (set_pc t p s) t' = tasks s t'"
  by (simp add: tasks_set_pc split: option.splits)

lemma set_pc_self: "tasks s t = Some tk \<Longrightarrow> tasks (set_pc t p s) t = Some (tk\<lparr> tpc := p \<rparr>)"
  by (simp add: tasks_set_pc)

lemma key_invD:
  assumes "key_inv k s" and "c < length (creations s)" and "ckey (creations s ! c) = k"
  shows "cstatus (creations s ! c) = InFlight \<Longrightarrow> pending s k = Some c"
  using assms unfolding key_inv_def by blast

lemma key_inv_task:
  assumes "key_inv k s" and "tasks s t = Some tk" and "tkey tk = k"
  shows "current s k (tpc tk)"
  using assms unfolding key_inv_def by blast

lemma key_invI:
  assumes "\<And>c. c < length (creations s) \<Longrightarrow> ckey (creations s ! c) = k \<Longrightarrow>
             cstatus (creations s ! c) = InFlight \<Longrightarrow> pending s k = Some c"
    and "\<And>t tk. tasks s t = Some tk \<Longrightarrow> tkey tk = k \<Longrightarrow> current s k (tpc tk)"
  shows "key_inv k s"
  using assms unfolding key_inv_def by blast

lemma current_extends:
  assumes "extends s s'" and "pool s' k = pool s k" and "pending s' k = pending s k"
    and "current s k p"
  shows "current s' k p"
  using assms
  by (auto simp: current_def extends_def split: pc.splits entry_promise.splits)

lemma current_same:
  assumes "creations s' = creations s" and "pool s' k = pool s k" and "pending s' k = pending s k"
    and "current s k p"
  shows "current s' k p"
  using assms(4) by (rule current_extends [OF extends_refl [OF assms(1)] assms(2,3)])

lemma key_inv_tables:
  assumes kinv: "key_inv k s" and same: "creations s' = creations s" "tasks s' = tasks s"
    "pool s' k = pool s k" "pending s' k = pending s k"
  shows "key_inv k s'"
proof (rule key_invI)
  fix c assume "c < length (creations s')" "ckey (creations s' ! c) = k"
    "cstatus (creations s' ! c) = InFlight"
  then show "pending s' k = Some c" using key_invD [OF kinv, of c] by (simp add: same)
next
  fix t tk assume tk: "tasks s' t = Some tk" "tkey tk = k"
  then have "tasks s t = Some tk" by (simp add: same)
  from key_inv_task [OF kinv this tk(2)] show "current s' k (tpc tk)"
    by (rule current_same [rotated -1]) (simp_all add: same)
qed

lemma key_inv_init: "key_inv k fixture_init"
  by (simp add: key_inv_def fixture_init_def)

lemma set_pc_tables:
  "pool (set_pc t p s) k = pool s k" "pending (set_pc t p s) k = pending s k"
  by simp_all

lemma key_inv_call:
  assumes inv: "table_inv s" and kinv: "key_inv k s" and step: "withVm_call t key s = Some s'"
  shows "key_inv k s'"
proof -
  from step obtain p s1 where fresh: "tasks s t = None" and ge: "getEntry key s = (p, s1)"
    and s': "s' = s1\<lparr> tasks := (tasks s1)(t \<mapsto> \<lparr> tkey = key, tpc = AwaitEntry p \<rparr>) \<rparr>"
    by (rule withVm_call_cases)
  have ext: "extends s s'" using step_extends [of "Call t key" s s'] step by simp
  from ge show ?thesis
  proof (cases rule: getEntry_cases)
    case (hit e)
    have same: "creations s' = creations s" "pool s' = pool s" "pending s' = pending s"
      and ta: "tasks s' = (tasks s)(t \<mapsto> \<lparr> tkey = key, tpc = AwaitEntry (Resolved e) \<rparr>)"
      by (simp_all add: s' hit(2,3))
    show ?thesis
    proof (rule key_invI)
      fix c assume "c < length (creations s')" "ckey (creations s' ! c) = k"
        "cstatus (creations s' ! c) = InFlight"
      then show "pending s' k = Some c" using key_invD [OF kinv, of c] by (simp add: same)
    next
      fix t' tk assume tk: "tasks s' t' = Some tk" "tkey tk = k"
      show "current s' k (tpc tk)"
      proof (cases "t' = t")
        case True
        with tk hit(1) show ?thesis by (auto simp: ta current_def same)
      next
        case False
        with tk have "tasks s t' = Some tk" by (simp add: ta)
        from key_inv_task [OF kinv this tk(2)] show ?thesis
          by (rule current_same [rotated -1]) (simp_all add: same)
      qed
    qed
  next
    case (inflight c)
    have same: "creations s' = creations s" "pool s' = pool s" "pending s' = pending s"
      and ta: "tasks s' = (tasks s)(t \<mapsto> \<lparr> tkey = key, tpc = AwaitEntry (Awaiting c) \<rparr>)"
      by (simp_all add: s' inflight(3,4))
    show ?thesis
    proof (rule key_invI)
      fix c' assume "c' < length (creations s')" "ckey (creations s' ! c') = k"
        "cstatus (creations s' ! c') = InFlight"
      then show "pending s' k = Some c'" using key_invD [OF kinv, of c'] by (simp add: same)
    next
      fix t' tk assume tk: "tasks s' t' = Some tk" "tkey tk = k"
      show "current s' k (tpc tk)"
      proof (cases "t' = t")
        case True
        with tk inflight(2) show ?thesis by (auto simp: ta current_def same)
      next
        case False
        with tk have "tasks s t' = Some tk" by (simp add: ta)
        from key_inv_task [OF kinv this tk(2)] show ?thesis
          by (rule current_same [rotated -1]) (simp_all add: same)
      qed
    qed
  next
    case create
    have cr: "creations s' = creations s @ [\<lparr> ckey = key, cstatus = InFlight \<rparr>]"
      and pe: "pending s' = (pending s)(key \<mapsto> length (creations s))"
      and po: "pool s' = pool s"
      and ta: "tasks s' = (tasks s)(t \<mapsto> \<lparr> tkey = key, tpc = AwaitEntry (Awaiting (length (creations s))) \<rparr>)"
      by (simp_all add: s' create(3,4))
    show ?thesis
    proof (rule key_invI)
      fix c assume c: "c < length (creations s')" "ckey (creations s' ! c) = k"
        "cstatus (creations s' ! c) = InFlight"
      show "pending s' k = Some c"
      proof (cases "c < length (creations s)")
        case True
        with c have old: "ckey (creations s ! c) = k" "cstatus (creations s ! c) = InFlight"
          by (simp_all add: cr nth_append)
        from key_invD [OF kinv True old] have "pending s k = Some c" .
        with create(2) have "k \<noteq> key" by auto
        with \<open>pending s k = Some c\<close> show ?thesis by (simp add: pe)
      next
        case False
        with c(1) have "c = length (creations s)" by (simp add: cr)
        with c(2) show ?thesis by (simp add: cr pe)
      qed
    next
      fix t' tk assume tk: "tasks s' t' = Some tk" "tkey tk = k"
      show "current s' k (tpc tk)"
      proof (cases "t' = t")
        case True
        with tk show ?thesis by (auto simp: ta current_def pe)
      next
        case False
        with tk have old: "tasks s t' = Some tk" by (simp add: ta)
        note cur = key_inv_task [OF kinv old tk(2)]
        show ?thesis
        proof (cases "key = k")
          case False
          from cur show ?thesis
            by (rule current_extends [OF ext, rotated -1]) (use False in \<open>simp_all add: po pe\<close>)
        next
          case True
          with create(1,2) have "pool s k = None" "pending s k = None" by simp_all
          with cur show ?thesis
            by (auto simp: current_def cr nth_append split: pc.splits entry_promise.splits)
        qed
      qed
    qed
  qed
qed

lemma key_inv_create_settles:
  assumes inv: "table_inv s" and kinv: "key_inv k s" and step: "create_settles c ok s = Some s'"
  shows "key_inv k s'"
proof -
  have ext: "extends s s'" using step_extends [of "CreateSettles c ok" s s'] step by simp
  define kc where "kc = ckey (creations s ! c)"
  from step have c: "c < length (creations s)" "cstatus (creations s ! c) = InFlight"
    and pe: "pending s' = (pending s)(kc := None)"
    and po: "pool s' = (if ok then (pool s)(kc \<mapsto> c) else pool s)"
    and ta: "tasks s' = tasks s"
    and st: "cstatus (creations s' ! c) = (if ok then Created else Failed)"
    and len: "length (creations s') = length (creations s)"
    and oth: "\<And>c'. c' \<noteq> c \<Longrightarrow> creations s' ! c' = creations s ! c'"
    and ck: "ckey (creations s' ! c) = kc"
    by (cases rule: create_settles_cases; simp add: kc_def)+
  show ?thesis
  proof (cases "kc = k")
    case False
    show ?thesis
    proof (rule key_invI)
      fix c' assume c': "c' < length (creations s')" "ckey (creations s' ! c') = k"
        "cstatus (creations s' ! c') = InFlight"
      with False ck have ne: "c' \<noteq> c" by auto
      with c' key_invD [OF kinv, of c'] False show "pending s' k = Some c'"
        by (simp add: len oth pe)
    next
      fix t tk assume tk: "tasks s' t = Some tk" "tkey tk = k"
      then have "tasks s t = Some tk" by (simp add: ta)
      from key_inv_task [OF kinv this tk(2)] show "current s' k (tpc tk)"
        by (rule current_extends [OF ext, rotated -1]) (use False in \<open>simp_all add: po pe\<close>)
    qed
  next
    case True
    have pend: "pending s k = Some c"
      using key_invD [OF kinv c(1) _ c(2)] True by (simp add: kc_def)
    have nopool: "pool s k = None"
      using table_invD(2) [OF inv, of k] pend by (cases "pool s k") auto
    show ?thesis
    proof (rule key_invI)
      fix c' assume c': "c' < length (creations s')" "ckey (creations s' ! c') = k"
        "cstatus (creations s' ! c') = InFlight"
      have ne: "c' \<noteq> c" using c'(3) st by (auto split: if_splits)
      with c' have "c' < length (creations s)" "ckey (creations s ! c') = k"
        "cstatus (creations s ! c') = InFlight" by (simp_all add: len oth)
      from key_invD [OF kinv this] pend ne show "pending s' k = Some c'" by simp
    next
      fix t tk assume tk: "tasks s' t = Some tk" "tkey tk = k"
      then have "tasks s t = Some tk" by (simp add: ta)
      note cur = key_inv_task [OF kinv this tk(2)]
      show "current s' k (tpc tk)"
      proof (cases "tpc tk")
        case (AwaitEntry p)
        show ?thesis
        proof (cases p)
          case (Resolved e)
          with cur AwaitEntry nopool show ?thesis by (simp add: current_def)
        next
          case (Awaiting c')
          show ?thesis
          proof (cases "c' = c")
            case same: True
            then show ?thesis
              using c(1) by (simp add: current_def AwaitEntry Awaiting po True st len)
          next
            case False
            with cur AwaitEntry Awaiting pend nopool
            have "c' < length (creations s) \<and> cstatus (creations s ! c') = Failed"
              by (simp add: current_def)
            with False show ?thesis by (simp add: current_def AwaitEntry Awaiting len oth)
          qed
        qed
      next
        case (AwaitAcquire e g)
        with cur nopool show ?thesis by (simp add: current_def)
      next
        case (InCallback e)
        with cur nopool show ?thesis by (simp add: current_def)
      next
        case (Done r)
        then show ?thesis by (simp add: current_def)
      qed
    qed
  qed
qed

lemma key_inv_set_pc:
  assumes kinv: "key_inv k s" and tk: "tasks s t = Some tk"
    and new: "tkey tk = k \<Longrightarrow> current s k p"
  shows "key_inv k (set_pc t p s)"
proof (rule key_invI)
  fix c assume "c < length (creations (set_pc t p s))" "ckey (creations (set_pc t p s) ! c) = k"
    "cstatus (creations (set_pc t p s) ! c) = InFlight"
  then show "pending (set_pc t p s) k = Some c" using key_invD [OF kinv, of c] by simp
next
  fix t' tk' assume tk': "tasks (set_pc t p s) t' = Some tk'" "tkey tk' = k"
  have "current s k (tpc tk')"
  proof (cases "t' = t")
    case True
    with tk' tk have "tk' = tk\<lparr> tpc := p \<rparr>" by (simp add: set_pc_self)
    with tk'(2) new show ?thesis by simp
  next
    case False
    with tk' have "tasks s t' = Some tk'" by (simp add: set_pc_other)
    from key_inv_task [OF kinv this tk'(2)] show ?thesis .
  qed
  then show "current (set_pc t p s) k (tpc tk')"
    by (rule current_same [rotated -1]) simp_all
qed

lemma key_inv_vm_entries:
  assumes "key_inv k s"
  shows "key_inv k (s\<lparr> vm_entries := x \<rparr>)"
  using assms by (rule key_inv_tables) simp_all

lemma key_inv_entry:
  assumes inv: "table_inv s" and kinv: "key_inv k s" and step: "withVm_entry t s = Some s'"
  shows "key_inv k s'"
proof -
  from step obtain tk p where tk: "tasks s t = Some tk" "tpc tk = AwaitEntry p"
    by (auto simp: withVm_entry_def split: option.splits pc.splits)
  show ?thesis
  proof (cases "promise_state s p")
    case Unsettled
    with step tk show ?thesis by (simp add: withVm_entry_def)
  next
    case Fails
    with step tk have s': "s' = set_pc t (Done Raised) s" by (auto simp: withVm_entry_def)
    show ?thesis unfolding s' by (rule key_inv_set_pc [OF kinv tk(1)]) (simp add: current_def)
  next
    case (Yields e)
    with step tk obtain sem g sem' where "vm_entries s e = Some sem" "acquire t sem = (g, sem')"
      and s': "s' = set_pc t (AwaitAcquire e g) (s\<lparr> vm_entries := (vm_entries s)(e \<mapsto> sem') \<rparr>)"
      by (auto simp: withVm_entry_def split: option.splits prod.splits)
    have cur: "pool s k = Some e" if "tkey tk = k"
    proof -
      from key_inv_task [OF kinv tk(1) that] tk(2) have c: "current s k (AwaitEntry p)" by simp
      show ?thesis
      proof (cases p)
        case (Resolved e')
        with c Yields show ?thesis by (simp add: current_def promise_state_def)
      next
        case (Awaiting c')
        with Yields have cr: "c' < length (creations s)" "cstatus (creations s ! c') = Created" "e = c'"
          by (auto simp: promise_state_def split: if_splits creation_status.splits)
        have "pending s k \<noteq> Some c'" using table_invD(1) [OF inv, of k c'] cr by auto
        with c Awaiting cr show ?thesis by (simp add: current_def)
      qed
    qed
    show ?thesis unfolding s'
      by (rule key_inv_set_pc [OF key_inv_vm_entries [OF kinv]])
        (use tk cur in \<open>simp_all add: current_def\<close>)
  qed
qed

lemma key_inv_acquired:
  assumes kinv: "key_inv k s" and step: "withVm_acquired t s = Some s'"
  shows "key_inv k s'"
proof -
  from step obtain tk e where tk: "tasks s t = Some tk" "tpc tk = AwaitAcquire e Granted"
    and s': "s' = set_pc t (InCallback e) s"
    by (auto simp: withVm_acquired_def split: option.splits pc.splits grant.splits)
  have "current s k (InCallback e)" if "tkey tk = k"
    using key_inv_task [OF kinv tk(1) that] tk(2) by (simp add: current_def)
  then show ?thesis unfolding s' by (rule key_inv_set_pc [OF kinv tk(1)])
qed

lemma key_inv_finally:
  assumes ginv: "gate_inv s" and kinv: "key_inv k s" and step: "withVm_finally t r s = Some s'"
  shows "key_inv k s'"
proof -
  from step obtain tk e where tk: "tasks s t = Some tk" "tpc tk = InCallback e"
    by (auto simp: withVm_finally_def split: option.splits pc.splits)
  with step obtain sem where sem: "vm_entries s e = Some sem"
    by (auto simp: withVm_finally_def split: option.splits)
  note ok = sem_okD [OF gate_invD(1) [OF ginv sem]]
  obtain woken sem' where rel: "release sem = (woken, sem')" by (cases "release sem")
  define s1 where "s1 = s\<lparr> vm_entries := (vm_entries s)(e \<mapsto> sem') \<rparr>"
  define s2 where "s2 = (case woken of None \<Rightarrow> s1 | Some n \<Rightarrow> set_pc n (AwaitAcquire e Granted) s1)"
  from step tk sem rel have s': "s' = set_pc t (Done r) s2"
    by (cases woken) (auto simp: withVm_finally_def s1_def s2_def Let_def)
  have i1: "key_inv k s1" unfolding s1_def by (rule key_inv_vm_entries [OF kinv])
  have t1: "tasks s1 = tasks s" by (simp add: s1_def)
  have i2: "key_inv k s2"
  proof (cases woken)
    case None
    then show ?thesis using i1 by (simp add: s2_def)
  next
    case (Some n)
    with rel have "n \<in> set (queue sem)" by (auto simp: release_def split: list.splits)
    then have "waits s e n" using ok(7) [of n] by simp
    then obtain tkn where tkn: "tasks s n = Some tkn" "tpc tkn = AwaitAcquire e Queued"
      by (auto simp: waits_def split: option.splits)
    have "current s1 k (AwaitAcquire e Granted)" if "tkey tkn = k"
      using key_inv_task [OF i1 _ that, of n] tkn by (simp add: t1 current_def)
    with i1 tkn(1) show ?thesis
      unfolding s2_def Some by (simp add: key_inv_set_pc t1)
  qed
  have "tasks s2 t \<noteq> None"
    using tk(1) by (auto simp: s2_def t1 tasks_set_pc split: option.splits)
  then obtain tk2 where "tasks s2 t = Some tk2" by auto
  then show ?thesis unfolding s' by (rule key_inv_set_pc [OF i2]) (simp add: current_def)
qed

lemma key_inv_teardown:
  assumes rest: "at_rest k s" and same: "creations s' = creations s" "tasks s' = tasks s"
  shows "key_inv k s'"
proof (rule key_invI)
  fix c assume "c < length (creations s')" "ckey (creations s' ! c) = k"
    "cstatus (creations s' ! c) = InFlight"
  with rest show "pending s' k = Some c" by (auto simp: at_rest_def same)
next
  fix t tk assume "tasks s' t = Some tk" "tkey tk = k"
  with rest obtain r where "tpc tk = Done r" unfolding at_rest_def same by blast
  then show "current s' k (tpc tk)" by (simp add: current_def)
qed

lemma key_inv_step_rest:
  assumes inv: "pool_inv s" and kinv: "key_inv k s" and step: "pool_step ev s = Some s'"
    and rest: "teardown k ev \<longrightarrow> at_rest k s"
  shows "key_inv k s'"
proof (cases ev)
  case (Call t key)
  with step inv kinv show ?thesis by (auto simp: pool_inv_def intro: key_inv_call)
next
  case (CreateSettles c ok)
  with step inv kinv show ?thesis by (auto simp: pool_inv_def intro: key_inv_create_settles)
next
  case (GotEntry t)
  with step inv kinv show ?thesis by (auto simp: pool_inv_def intro: key_inv_entry)
next
  case (Acquired t)
  with step kinv show ?thesis by (auto intro: key_inv_acquired)
next
  case (CallbackSettles t r)
  with step inv kinv show ?thesis by (auto simp: pool_inv_def intro: key_inv_finally)
next
  case (CloseVm key)
  with step have s': "s' = closeVm key s" by simp
  have same: "creations s' = creations s" "tasks s' = tasks s"
    by (simp_all add: s' closeVm_def split: option.splits)
  show ?thesis
  proof (cases "key = k")
    case True
    with rest CloseVm have "at_rest k s" by simp
    then show ?thesis using same by (rule key_inv_teardown)
  next
    case False
    then have "pool s' k = pool s k" "pending s' k = pending s k"
      by (simp_all add: s' closeVm_def split: option.splits)
    with kinv same show ?thesis by (rule key_inv_tables)
  qed
next
  case CloseAllVms
  with step have s': "s' = closeAllVms s" by simp
  have same: "creations s' = creations s" "tasks s' = tasks s"
    by (simp_all add: s' closeAllVms_def)
  from rest CloseAllVms have "at_rest k s" by simp
  then show ?thesis using same by (rule key_inv_teardown)
qed

lemma key_inv_step:
  assumes inv: "pool_inv s" and kinv: "key_inv k s" and step: "pool_step ev s = Some s'"
    and nt: "\<not> teardown k ev"
  shows "key_inv k s'"
  by (rule key_inv_step_rest [OF inv kinv step]) (simp add: nt)

lemma key_inv_run_rest:
  "pool_inv s \<Longrightarrow> key_inv k s \<Longrightarrow> pool_run tr s = Some s' \<Longrightarrow> teardowns_at_rest k tr s
     \<Longrightarrow> key_inv k s'"
proof (induction tr arbitrary: s)
  case Nil
  then show ?case by simp
next
  case (Cons ev tr)
  from Cons.prems(3) obtain s1 where s1: "pool_step ev s = Some s1" "pool_run tr s1 = Some s'"
    by (auto split: option.splits)
  from Cons.prems(4) s1(1) have r: "teardown k ev \<longrightarrow> at_rest k s" "teardowns_at_rest k tr s1"
    by simp_all
  have "pool_inv s1" by (rule pool_inv_step [OF Cons.prems(1) s1(1)])
  moreover have "key_inv k s1" by (rule key_inv_step_rest [OF Cons.prems(1,2) s1(1) r(1)])
  ultimately show ?case using Cons.IH [of s1] s1(2) r(2) by simp
qed

lemma no_teardown_at_rest:
  "\<forall>ev\<in>set tr. \<not> teardown k ev \<Longrightarrow> teardowns_at_rest k tr s"
  by (induction tr arbitrary: s) (auto split: option.splits)

lemma key_inv_run:
  "pool_inv s \<Longrightarrow> key_inv k s \<Longrightarrow> pool_run tr s = Some s' \<Longrightarrow> \<forall>ev\<in>set tr. \<not> teardown k ev
     \<Longrightarrow> key_inv k s'"
  using key_inv_run_rest [of s k tr s'] no_teardown_at_rest [of tr k s] by blast

lemma step_task:
  assumes inv: "pool_inv s" and step: "pool_step ev s = Some s'" and tk: "tasks s t = Some tk"
  shows "\<exists>tk'. tasks s' t = Some tk' \<and> tkey tk' = tkey tk \<and>
           (tpc tk' = tpc tk \<or> pc_next s (tpc tk) (tpc tk'))"
proof (cases ev)
  case (Call t' key)
  with step obtain p s1 where fresh: "tasks s t' = None" and ge: "getEntry key s = (p, s1)"
    and s': "s' = s1\<lparr> tasks := (tasks s1)(t' \<mapsto> \<lparr> tkey = key, tpc = AwaitEntry p \<rparr>) \<rparr>"
    by (auto elim: withVm_call_cases)
  from ge have "tasks s1 = tasks s" by (cases rule: getEntry_cases) simp_all
  with fresh tk show ?thesis by (auto simp: s')
next
  case (CreateSettles c ok)
  with step have "tasks s' = tasks s"
    by (auto simp: create_settles_def Let_def split: if_splits)
  with tk show ?thesis by simp
next
  case (GotEntry t')
  with step obtain tk1 p where tk1: "tasks s t' = Some tk1" "tpc tk1 = AwaitEntry p"
    by (auto simp: withVm_entry_def split: option.splits pc.splits)
  show ?thesis
  proof (cases "promise_state s p")
    case Unsettled
    with step GotEntry tk1 show ?thesis by (simp add: withVm_entry_def)
  next
    case Fails
    with step GotEntry tk1 have s': "s' = set_pc t' (Done Raised) s"
      by (auto simp: withVm_entry_def)
    show ?thesis
    proof (cases "t = t'")
      case True
      with tk tk1 Fails show ?thesis by (simp add: s' set_pc_self pc_next_def)
    next
      case False
      with tk show ?thesis by (simp add: s' set_pc_other)
    qed
  next
    case (Yields e)
    with step GotEntry tk1 obtain sem g sem' where
      s': "s' = set_pc t' (AwaitAcquire e g) (s\<lparr> vm_entries := (vm_entries s)(e \<mapsto> sem') \<rparr>)"
      by (auto simp: withVm_entry_def split: option.splits prod.splits)
    show ?thesis
    proof (cases "t = t'")
      case True
      with tk tk1 Yields show ?thesis by (simp add: s' set_pc_self pc_next_def)
    next
      case False
      with tk show ?thesis by (simp add: s' set_pc_other)
    qed
  qed
next
  case (Acquired t')
  with step obtain tk1 e where tk1: "tasks s t' = Some tk1" "tpc tk1 = AwaitAcquire e Granted"
    and s': "s' = set_pc t' (InCallback e) s"
    by (auto simp: withVm_acquired_def split: option.splits pc.splits grant.splits)
  show ?thesis
  proof (cases "t = t'")
    case True
    with tk tk1 show ?thesis by (simp add: s' set_pc_self pc_next_def)
  next
    case False
    with tk show ?thesis by (simp add: s' set_pc_other)
  qed
next
  case (CallbackSettles t' r)
  with step obtain tk1 e where tk1: "tasks s t' = Some tk1" "tpc tk1 = InCallback e"
    by (auto simp: withVm_finally_def split: option.splits pc.splits)
  with step CallbackSettles obtain sem where sem: "vm_entries s e = Some sem"
    by (auto simp: withVm_finally_def split: option.splits)
  from inv have ginv: "gate_inv s" by (simp add: pool_inv_def)
  note ok = sem_okD [OF gate_invD(1) [OF ginv sem]]
  obtain woken sem' where rel: "release sem = (woken, sem')" by (cases "release sem")
  define s1 where "s1 = s\<lparr> vm_entries := (vm_entries s)(e \<mapsto> sem') \<rparr>"
  define s2 where "s2 = (case woken of None \<Rightarrow> s1 | Some n \<Rightarrow> set_pc n (AwaitAcquire e Granted) s1)"
  from step CallbackSettles tk1 sem rel have s': "s' = set_pc t' (Done r) s2"
    by (cases woken) (auto simp: withVm_finally_def s1_def s2_def Let_def)
  have t1: "tasks s1 = tasks s" by (simp add: s1_def)
  have mid: "\<exists>tk2. tasks s2 t = Some tk2 \<and> tkey tk2 = tkey tk \<and>
           (tpc tk2 = tpc tk \<or> t \<noteq> t' \<and> pc_next s (tpc tk) (tpc tk2))"
  proof (cases woken)
    case None
    with tk show ?thesis by (simp add: s2_def t1)
  next
    case (Some n)
    with rel have "n \<in> set (queue sem)" by (auto simp: release_def split: list.splits)
    then have "waits s e n" using ok(7) [of n] by simp
    then obtain tkn where tkn: "tasks s n = Some tkn" "tpc tkn = AwaitAcquire e Queued"
      by (auto simp: waits_def split: option.splits)
    show ?thesis
    proof (cases "t = n")
      case True
      with tk tkn tk1 have "t \<noteq> t'" by auto
      with True tk tkn show ?thesis
        by (simp add: s2_def Some set_pc_self t1 pc_next_def)
    next
      case False
      with tk show ?thesis by (simp add: s2_def Some set_pc_other t1)
    qed
  qed
  then obtain tk2 where tk2: "tasks s2 t = Some tk2" "tkey tk2 = tkey tk"
    "tpc tk2 = tpc tk \<or> t \<noteq> t' \<and> pc_next s (tpc tk) (tpc tk2)" by blast
  show ?thesis
  proof (cases "t = t'")
    case True
    with tk2 tk tk1 show ?thesis by (simp add: s' set_pc_self pc_next_def)
  next
    case False
    with tk2 show ?thesis by (auto simp: s' set_pc_other)
  qed
next
  case (CloseVm key)
  with step tk show ?thesis by (auto simp: closeVm_def split: option.splits)
next
  case CloseAllVms
  with step tk show ?thesis by (auto simp: closeAllVms_def)
qed

lemma step_new_task:
  assumes step: "pool_step (Call t key) s = Some s'"
  shows "tasks s t = None \<and> tasks s' t = Some \<lparr> tkey = key, tpc = AwaitEntry (fst (getEntry key s)) \<rparr>"
  using step by (auto elim!: withVm_call_cases)

lemma map_ckey_settle:
  "c < length xs \<Longrightarrow> map ckey (xs[c := \<lparr> ckey = ckey (xs ! c), cstatus = st \<rparr>]) = map ckey xs"
  by (simp add: list_eq_iff_nth_eq nth_list_update)

lemma create_settles_factory_calls:
  "create_settles c ok s = Some s' \<Longrightarrow> factory_calls k s' = factory_calls k s"
  by (erule create_settles_cases) (simp_all add: factory_calls_def map_ckey_settle)

lemma step_key_tables:
  assumes step: "pool_step ev s = Some s'" and nt: "\<not> teardown k ev"
    and nc: "\<And>t. ev \<noteq> Call t k"
    and ns: "\<And>c ok. ev = CreateSettles c ok \<Longrightarrow> ckey (creations s ! c) \<noteq> k"
  shows "pool s' k = pool s k \<and> pending s' k = pending s k \<and>
         factory_calls k s' = factory_calls k s"
proof (cases ev)
  case (Call t key)
  with nc have ne: "key \<noteq> k" by auto
  from step Call obtain p s1 where ge: "getEntry key s = (p, s1)"
    and s': "s' = s1\<lparr> tasks := (tasks s1)(t \<mapsto> \<lparr> tkey = key, tpc = AwaitEntry p \<rparr>) \<rparr>"
    by (auto elim: withVm_call_cases)
  from ge show ?thesis
    by (cases rule: getEntry_cases) (use ne in \<open>auto simp: s' factory_calls_def\<close>)
next
  case (CreateSettles c ok)
  with ns have ne: "ckey (creations s ! c) \<noteq> k" by simp
  from step CreateSettles have cs: "create_settles c ok s = Some s'" by simp
  have "pool s' k = pool s k \<and> pending s' k = pending s k"
    using cs by (cases rule: create_settles_cases) (use ne in auto)
  with create_settles_factory_calls [OF cs, of k] show ?thesis by simp
next
  case (GotEntry t)
  with step show ?thesis
    by (auto simp: withVm_entry_def factory_calls_def
        split: option.splits pc.splits settled.splits prod.splits)
next
  case (Acquired t)
  with step show ?thesis
    by (auto simp: withVm_acquired_def factory_calls_def split: option.splits pc.splits grant.splits)
next
  case (CallbackSettles t r)
  with step show ?thesis
    by (auto simp: withVm_finally_def Let_def factory_calls_def
        split: option.splits pc.splits prod.splits)
next
  case (CloseVm key)
  with nt have "key \<noteq> k" by simp
  with step CloseVm show ?thesis
    by (auto simp: closeVm_def factory_calls_def split: option.splits)
next
  case CloseAllVms
  with nt show ?thesis by simp
qed

lemma awaiting_stable:
  assumes inv: "pool_inv s" and step: "pool_step ev s = Some s'" and aw: "awaiting s t k c"
    and un: "promise_state s (Awaiting c) = Unsettled"
  shows "awaiting s' t k c"
proof -
  from aw have tk: "tasks s t = Some \<lparr> tkey = k, tpc = AwaitEntry (Awaiting c) \<rparr>"
    by (simp add: awaiting_def)
  from step_task [OF inv step tk] un obtain tk' where
    "tasks s' t = Some tk'" "tkey tk' = k" "tpc tk' = AwaitEntry (Awaiting c)"
    by (auto simp: pc_next_def)
  then show ?thesis by (cases tk') (simp add: awaiting_def)
qed

lemma uses_only_next:
  assumes "uses_only c p" and "pc_next s p p'" and "c < length (creations s)"
    and "cstatus (creations s ! c) = Created"
  shows "uses_only c p'"
  using assms
  by (auto simp: uses_only_def pc_next_def promise_state_def
      split: pc.splits entry_promise.splits if_splits creation_status.splits)

lemma uses_only_stable:
  assumes inv: "pool_inv s" and step: "pool_step ev s = Some s'"
    and tk: "tasks s t = Some tk" "tkey tk = k" "uses_only c (tpc tk)"
    and c: "c < length (creations s)" "cstatus (creations s ! c) = Created"
  shows "\<exists>tk'. tasks s' t = Some tk' \<and> tkey tk' = k \<and> uses_only c (tpc tk')"
proof -
  from step_task [OF inv step tk(1)] obtain tk' where tk': "tasks s' t = Some tk'"
    "tkey tk' = tkey tk" "tpc tk' = tpc tk \<or> pc_next s (tpc tk) (tpc tk')" by blast
  from tk'(3) tk(3) uses_only_next [OF tk(3) _ c] have "uses_only c (tpc tk')" by auto
  with tk' tk(2) show ?thesis by simp
qed

lemma callers_simps [simp]:
  "callers k [] = {}"
  "callers k (Call t key # tr) = (if key = k then insert t (callers k tr) else callers k tr)"
  "callers k (CreateSettles c ok # tr) = callers k tr"
  "callers k (GotEntry t # tr) = callers k tr"
  "callers k (Acquired t # tr) = callers k tr"
  "callers k (CallbackSettles t r # tr) = callers k tr"
  "callers k (CloseVm key # tr) = callers k tr"
  "callers k (CloseAllVms # tr) = callers k tr"
  by (auto simp: callers_def)

lemma pending_unsettled:
  "table_inv s \<Longrightarrow> pending s k = Some c \<Longrightarrow> promise_state s (Awaiting c) = Unsettled"
  by (drule (1) table_invD(1)) (simp add: promise_state_def)

lemma window_step:
  assumes inv: "pool_inv s" and kinv: "key_inv k s" and W: "window_state k n0 L T s"
    and L: "L \<le> length (creations s)" and step: "pool_step ev s = Some s'"
    and nt: "\<not> teardown k ev" and still: "still_in_flight k L s'"
  shows "window_state k n0 L (T \<union> callers k [ev]) s'"
proof -
  from inv have tinv: "table_inv s" by (simp add: pool_inv_def)
  have keep: "awaiting s' t k c" if "awaiting s t k c" "pending s k = Some c" for t c
    by (rule awaiting_stable [OF inv step that(1) pending_unsettled [OF tinv that(2)]])
  have other: "window_state k n0 L T s'"
    if tabs: "pool s' k = pool s k \<and> pending s' k = pending s k \<and>
              factory_calls k s' = factory_calls k s"
  proof (cases "T = {}")
    case True
    with W tabs show ?thesis by (simp add: window_state_def)
  next
    case False
    with W obtain c where c: "L \<le> c" "pending s k = Some c" "pool s k = None"
      "factory_calls k s = n0 + 1" "\<forall>t\<in>T. awaiting s t k c"
      by (auto simp: window_state_def)
    from c(5) keep [OF _ c(2)] have "\<forall>t\<in>T. awaiting s' t k c" by blast
    with False c tabs show ?thesis by (auto simp: window_state_def)
  qed
  show ?thesis
  proof (cases ev)
    case (Call t key)
    show ?thesis
    proof (cases "key = k")
      case False
      with Call have "pool s' k = pool s k \<and> pending s' k = pending s k \<and>
              factory_calls k s' = factory_calls k s"
        by (intro step_key_tables [OF step nt]) auto
      from other [OF this] Call False show ?thesis by simp
    next
      case True
      from step Call True obtain p s1 where fresh: "tasks s t = None"
        and ge: "getEntry k s = (p, s1)"
        and s': "s' = s1\<lparr> tasks := (tasks s1)(t \<mapsto> \<lparr> tkey = k, tpc = AwaitEntry p \<rparr>) \<rparr>"
        by (auto elim: withVm_call_cases)
      have T': "T \<union> callers k [ev] = insert t T" using Call True by simp
      show ?thesis
      proof (cases "T = {}")
        case empty: True
        with W have fr: "pool s k = None" "pending s k = None" "factory_calls k s = n0"
          by (simp_all add: window_state_def)
        from ge fr have p: "p = Awaiting (length (creations s))"
          and s1: "s1 = s\<lparr> creations := creations s @ [\<lparr> ckey = k, cstatus = InFlight \<rparr>],
                         pending := (pending s)(k \<mapsto> length (creations s)) \<rparr>"
          by (cases rule: getEntry_cases; simp)+
        have "awaiting s' t k (length (creations s))" by (simp add: awaiting_def s' p s1)
        moreover have "pending s' k = Some (length (creations s))" "pool s' k = None"
          "factory_calls k s' = n0 + 1"
          using fr by (simp_all add: s' s1 factory_calls_def)
        ultimately show ?thesis
          unfolding T' using L empty by (auto simp: window_state_def)
      next
        case False
        with W obtain c where c: "L \<le> c" "pending s k = Some c" "pool s k = None"
          "factory_calls k s = n0 + 1" "\<forall>t\<in>T. awaiting s t k c"
          by (auto simp: window_state_def)
        from ge c have p: "p = Awaiting c" and s1: "s1 = s"
          by (cases rule: getEntry_cases; simp)+
        have "awaiting s' t k c" by (simp add: awaiting_def s' p s1)
        moreover from c(5) keep [OF _ c(2)] have "\<forall>t\<in>T. awaiting s' t k c" by blast
        moreover have "pending s' k = Some c" "pool s' k = None" "factory_calls k s' = n0 + 1"
          using c by (simp_all add: s' s1 factory_calls_def)
        ultimately show ?thesis
          unfolding T' using c(1) by (auto simp: window_state_def)
      qed
    qed
  next
    case (CreateSettles c ok)
    from step CreateSettles have cs: "create_settles c ok s = Some s'" by simp
    then have c: "c < length (creations s)" "cstatus (creations s ! c) = InFlight"
      and c': "length (creations s') = length (creations s)"
      "ckey (creations s' ! c) = ckey (creations s ! c)" "cstatus (creations s' ! c) \<noteq> InFlight"
      by (cases rule: create_settles_cases; simp)+
    have "ckey (creations s ! c) \<noteq> k"
    proof
      assume k: "ckey (creations s ! c) = k"
      from key_invD(1) [OF kinv c(1) k c(2)] have pend: "pending s k = Some c" .
      with W have "L \<le> c" by (cases "T = {}") (auto simp: window_state_def)
      with still c c' k show False by (auto simp: still_in_flight_def)
    qed
    with CreateSettles have "pool s' k = pool s k \<and> pending s' k = pending s k \<and>
              factory_calls k s' = factory_calls k s"
      by (intro step_key_tables [OF step nt]) auto
    from other [OF this] CreateSettles show ?thesis by simp
  next
    case (GotEntry t)
    then have "pool s' k = pool s k \<and> pending s' k = pending s k \<and>
              factory_calls k s' = factory_calls k s"
      by (intro step_key_tables [OF step nt]) auto
    from other [OF this] GotEntry show ?thesis by simp
  next
    case (Acquired t)
    then have "pool s' k = pool s k \<and> pending s' k = pending s k \<and>
              factory_calls k s' = factory_calls k s"
      by (intro step_key_tables [OF step nt]) auto
    from other [OF this] Acquired show ?thesis by simp
  next
    case (CallbackSettles t r)
    then have "pool s' k = pool s k \<and> pending s' k = pending s k \<and>
              factory_calls k s' = factory_calls k s"
      by (intro step_key_tables [OF step nt]) auto
    from other [OF this] CallbackSettles show ?thesis by simp
  next
    case (CloseVm key)
    then have "pool s' k = pool s k \<and> pending s' k = pending s k \<and>
              factory_calls k s' = factory_calls k s"
      by (intro step_key_tables [OF step nt]) auto
    from other [OF this] CloseVm show ?thesis by simp
  next
    case CloseAllVms
    with nt show ?thesis by simp
  qed
qed

lemma extends_trans: "extends s s' \<Longrightarrow> extends s' s'' \<Longrightarrow> extends s s''"
  unfolding extends_def by (metis (no_types, lifting) le_trans less_le_trans)

lemma run_extends: "pool_run tr s = Some s' \<Longrightarrow> extends s s'"
proof (induction tr arbitrary: s)
  case Nil
  then show ?case by (simp add: extends_def)
next
  case (Cons ev tr)
  from Cons.prems obtain s1 where "pool_step ev s = Some s1" "pool_run tr s1 = Some s'"
    by (auto split: option.splits)
  with Cons.IH [of s1] step_extends [of ev s s1] show ?case by (blast intro: extends_trans)
qed

lemma still_in_flight_back:
  assumes "still_in_flight k L s'" and "extends s s'"
  shows "still_in_flight k L s"
  unfolding still_in_flight_def
proof (intro allI impI)
  fix c assume c: "L \<le> c \<and> c < length (creations s) \<and> ckey (creations s ! c) = k"
  with assms(2) have "c < length (creations s')" "ckey (creations s' ! c) = k"
    by (auto simp: extends_def)
  with assms(1) c have "cstatus (creations s' ! c) = InFlight"
    by (auto simp: still_in_flight_def)
  with assms(2) c show "cstatus (creations s ! c) = InFlight"
    by (auto simp: extends_def)
qed

lemma window_run:
  "pool_inv s \<Longrightarrow> key_inv k s \<Longrightarrow> window_state k n0 L T s \<Longrightarrow> L \<le> length (creations s)
     \<Longrightarrow> pool_run tr s = Some s1 \<Longrightarrow> \<forall>ev\<in>set tr. \<not> teardown k ev
     \<Longrightarrow> still_in_flight k L s1
     \<Longrightarrow> window_state k n0 L (T \<union> callers k tr) s1"
proof (induction tr arbitrary: s T)
  case Nil
  then show ?case by simp
next
  case (Cons ev tr)
  from Cons.prems(5) obtain s' where s': "pool_step ev s = Some s'" "pool_run tr s' = Some s1"
    by (auto split: option.splits)
  have i: "pool_inv s'" by (rule pool_inv_step [OF Cons.prems(1) s'(1)])
  have nt: "\<not> teardown k ev" using Cons.prems(6) by simp
  have ki: "key_inv k s'" by (rule key_inv_step [OF Cons.prems(1,2) s'(1) nt])
  have st: "still_in_flight k L s'"
    by (rule still_in_flight_back [OF Cons.prems(7) run_extends [OF s'(2)]])
  have w: "window_state k n0 L (T \<union> callers k [ev]) s'"
    by (rule window_step [OF Cons.prems(1,2,3,4) s'(1) nt st])
  have L: "L \<le> length (creations s')"
    using Cons.prems(4) step_extends [OF s'(1)] by (simp add: extends_def)
  have "T \<union> callers k [ev] \<union> callers k tr = T \<union> callers k (ev # tr)"
    by (auto simp: callers_def)
  with Cons.IH [OF i ki w L s'(2) _ Cons.prems(7)] Cons.prems(6) show ?case by simp
qed

lemma cached_step:
  assumes inv: "pool_inv s" and kinv: "key_inv k s" and C: "cached_state k n1 c T s"
    and step: "pool_step ev s = Some s'" and nt: "\<not> teardown k ev"
  shows "cached_state k n1 c (T \<union> callers k [ev]) s'"
proof -
  from inv have tinv: "table_inv s" by (simp add: pool_inv_def)
  from C have pk: "pool s k = Some c" and fc: "factory_calls k s = n1"
    and us: "\<forall>t\<in>T. uses s t k c" by (simp_all add: cached_state_def)
  from table_invD(2) [OF tinv pk] have cr: "c < length (creations s)"
    "cstatus (creations s ! c) = Created" and np: "pending s k = None"
    by (simp_all add: made_def)
  have keep: "uses s' t k c" if "uses s t k c" for t
    using that uses_only_stable [OF inv step _ _ _ cr] unfolding uses_def by blast
  have other: "cached_state k n1 c T s'"
    if "pool s' k = pool s k \<and> pending s' k = pending s k \<and>
        factory_calls k s' = factory_calls k s"
    using that pk fc us keep by (simp add: cached_state_def)
  show ?thesis
  proof (cases ev)
    case (Call t key)
    show ?thesis
    proof (cases "key = k")
      case False
      with Call have "pool s' k = pool s k \<and> pending s' k = pending s k \<and>
              factory_calls k s' = factory_calls k s"
        by (intro step_key_tables [OF step nt]) auto
      from other [OF this] Call False show ?thesis by simp
    next
      case True
      from step Call True obtain p s1 where ge: "getEntry k s = (p, s1)"
        and s': "s' = s1\<lparr> tasks := (tasks s1)(t \<mapsto> \<lparr> tkey = k, tpc = AwaitEntry p \<rparr>) \<rparr>"
        by (auto elim: withVm_call_cases)
      from ge pk have p: "p = Resolved c" and s1: "s1 = s"
        by (cases rule: getEntry_cases; simp)+
      have "uses s' t k c" by (simp add: uses_def s' p uses_only_def)
      moreover have "pool s' k = Some c" "factory_calls k s' = n1"
        using pk fc by (simp_all add: s' s1 factory_calls_def)
      ultimately show ?thesis
        using us keep Call True by (auto simp: cached_state_def)
    qed
  next
    case (CreateSettles c' ok)
    from step CreateSettles have cs: "create_settles c' ok s = Some s'" by simp
    then have c': "c' < length (creations s)" "cstatus (creations s ! c') = InFlight"
      by (cases rule: create_settles_cases; simp)+
    have "ckey (creations s ! c') \<noteq> k"
    proof
      assume "ckey (creations s ! c') = k"
      from key_invD(1) [OF kinv c'(1) this c'(2)] np show False by simp
    qed
    with CreateSettles have "pool s' k = pool s k \<and> pending s' k = pending s k \<and>
              factory_calls k s' = factory_calls k s"
      by (intro step_key_tables [OF step nt]) auto
    from other [OF this] CreateSettles show ?thesis by simp
  next
    case (GotEntry t)
    then have "pool s' k = pool s k \<and> pending s' k = pending s k \<and>
              factory_calls k s' = factory_calls k s"
      by (intro step_key_tables [OF step nt]) auto
    from other [OF this] GotEntry show ?thesis by simp
  next
    case (Acquired t)
    then have "pool s' k = pool s k \<and> pending s' k = pending s k \<and>
              factory_calls k s' = factory_calls k s"
      by (intro step_key_tables [OF step nt]) auto
    from other [OF this] Acquired show ?thesis by simp
  next
    case (CallbackSettles t r)
    then have "pool s' k = pool s k \<and> pending s' k = pending s k \<and>
              factory_calls k s' = factory_calls k s"
      by (intro step_key_tables [OF step nt]) auto
    from other [OF this] CallbackSettles show ?thesis by simp
  next
    case (CloseVm key)
    then have "pool s' k = pool s k \<and> pending s' k = pending s k \<and>
              factory_calls k s' = factory_calls k s"
      by (intro step_key_tables [OF step nt]) auto
    from other [OF this] CloseVm show ?thesis by simp
  next
    case CloseAllVms
    with nt show ?thesis by simp
  qed
qed

lemma cached_run:
  "pool_inv s \<Longrightarrow> key_inv k s \<Longrightarrow> cached_state k n1 c T s
     \<Longrightarrow> pool_run tr s = Some s2 \<Longrightarrow> \<forall>ev\<in>set tr. \<not> teardown k ev
     \<Longrightarrow> cached_state k n1 c (T \<union> callers k tr) s2"
proof (induction tr arbitrary: s T)
  case Nil
  then show ?case by simp
next
  case (Cons ev tr)
  from Cons.prems(4) obtain s' where s': "pool_step ev s = Some s'" "pool_run tr s' = Some s2"
    by (auto split: option.splits)
  have i: "pool_inv s'" by (rule pool_inv_step [OF Cons.prems(1) s'(1)])
  have nt: "\<not> teardown k ev" using Cons.prems(5) by simp
  have ki: "key_inv k s'" by (rule key_inv_step [OF Cons.prems(1,2) s'(1) nt])
  have w: "cached_state k n1 c (T \<union> callers k [ev]) s'"
    by (rule cached_step [OF Cons.prems(1,2,3) s'(1) nt])
  have "T \<union> callers k [ev] \<union> callers k tr = T \<union> callers k (ev # tr)"
    by (auto simp: callers_def)
  with Cons.IH [OF i ki w s'(2)] Cons.prems(5) show ?case by simp
qed

lemma settle_to_cached:
  assumes inv: "pool_inv s" and pend: "pending s k = Some c" and pn: "pool s k = None"
    and aw: "\<forall>t\<in>T. awaiting s t k c"
    and step: "pool_step (CreateSettles c True) s = Some s'"
  shows "cached_state k (factory_calls k s) c T s'"
proof -
  from inv have tinv: "table_inv s" by (simp add: pool_inv_def)
  from table_invD(1) [OF tinv pend] have ck: "ckey (creations s ! c) = k" by simp
  from step have cs: "create_settles c True s = Some s'" by simp
  then have "pool s' k = Some c" "tasks s' = tasks s"
    by (cases rule: create_settles_cases; simp add: ck)+
  moreover have "factory_calls k s' = factory_calls k s"
    by (rule create_settles_factory_calls [OF cs])
  moreover have "uses s' t k c" if "t \<in> T" for t
    using aw that \<open>tasks s' = tasks s\<close> by (auto simp: uses_def awaiting_def uses_only_def)
  ultimately show ?thesis by (simp add: cached_state_def)
qed

lemmas pool_eval =
  withVm_call_def getEntry_def create_settles_def withVm_entry_def withVm_acquired_def
  withVm_finally_def promise_state_def set_pc_def acquire_def release_def new_Semaphore_def
  fixture_init_def Let_def

text \<open>
  Claim C8 as stated fails when the key is torn down between two of the calls: \<^verbatim>\<open>closeVm\<close>
  finds no entry in the pool and deletes the pending creation from its table, so the next
  \<^verbatim>\<open>getEntry\<close> starts a second creation. Both calls were made before the first creation
  completed, the factory has been called twice, and the two callers wait for different
  creations.
\<close>

theorem teardown_breaks_single_flight:
  "pool_run [Call 0 ''vm'', CloseVm ''vm'', Call 1 ''vm''] fixture_init \<noteq> None \<and>
   still_in_flight ''vm'' 0 (the (pool_run [Call 0 ''vm'', CloseVm ''vm'', Call 1 ''vm''] fixture_init)) \<and>
   factory_calls ''vm'' (the (pool_run [Call 0 ''vm'', CloseVm ''vm'', Call 1 ''vm''] fixture_init)) = 2 \<and>
   awaiting (the (pool_run [Call 0 ''vm'', CloseVm ''vm'', Call 1 ''vm''] fixture_init)) 0 ''vm'' 0 \<and>
   awaiting (the (pool_run [Call 0 ''vm'', CloseVm ''vm'', Call 1 ''vm''] fixture_init)) 1 ''vm'' 1"
  by (simp add: pool_eval closeVm_def still_in_flight_def factory_calls_def awaiting_def
        nth_Cons' less_Suc_eq)

text \<open>
  Claim C8, as amended. Take a key that has been torn down, if at all, only while it was at
  rest, and a state in which it is fresh (not in the pool, nothing pending). Over any run
  from there that does not tear the key down, starts at least one \<^verbatim>\<open>withVm\<close> (hence
  \<^verbatim>\<open>getEntry\<close>) for the key, and ends before a creation for the key has settled: the factory
  has been called exactly once for the key, and every caller for the key waits for the
  promise of that one creation. When that creation then succeeds, over any further run that
  does not tear the key down: the number of factory calls for the key stays the same, the
  pool holds the entry, the promise has yielded it, \<^verbatim>\<open>getEntry\<close> returns it without changing
  the state, and every caller, early or late, has that entry and no other.
\<close>

theorem single_flight:
  assumes reach: "pool_run tr0 fixture_init = Some s0"
    and rest0: "teardowns_at_rest k tr0 fixture_init"
    and fresh: "pool s0 k = None" "pending s0 k = None"
    and run1: "pool_run tr1 s0 = Some s1" and nt1: "\<forall>ev\<in>set tr1. \<not> teardown k ev"
    and still: "still_in_flight k (length (creations s0)) s1"
    and some: "callers k tr1 \<noteq> {}"
  shows "factory_calls k s1 = factory_calls k s0 + 1 \<and>
    (\<exists>c. pending s1 k = Some c \<and> promise_state s1 (Awaiting c) = Unsettled \<and>
       (\<forall>t\<in>callers k tr1. awaiting s1 t k c) \<and>
       (\<forall>tr2 s2. pool_run (CreateSettles c True # tr2) s1 = Some s2 \<and>
                  (\<forall>ev\<in>set tr2. \<not> teardown k ev) \<longrightarrow>
           factory_calls k s2 = factory_calls k s0 + 1 \<and>
           pool s2 k = Some c \<and>
           promise_state s2 (Awaiting c) = Yields c \<and>
           getEntry k s2 = (Resolved c, s2) \<and>
           (\<forall>t\<in>callers k tr1 \<union> callers k tr2. uses s2 t k c)))"
proof -
  have i0: "pool_inv s0" by (rule pool_inv_run [OF pool_inv_init reach])
  have k0: "key_inv k s0"
    by (rule key_inv_run_rest [OF pool_inv_init key_inv_init reach rest0])
  have w0: "window_state k (factory_calls k s0) (length (creations s0)) {} s0"
    using fresh by (simp add: window_state_def)
  from window_run [OF i0 k0 w0 _ run1 nt1 still] some
  obtain c where c: "pending s1 k = Some c" "pool s1 k = None"
    "factory_calls k s1 = factory_calls k s0 + 1" "\<forall>t\<in>callers k tr1. awaiting s1 t k c"
    by (auto simp: window_state_def)
  have i1: "pool_inv s1" by (rule pool_inv_run [OF i0 run1])
  have k1: "key_inv k s1" by (rule key_inv_run [OF i0 k0 run1 nt1])
  from i1 have t1: "table_inv s1" by (simp add: pool_inv_def)
  have un: "promise_state s1 (Awaiting c) = Unsettled" by (rule pending_unsettled [OF t1 c(1)])
  have after: "factory_calls k s2 = factory_calls k s0 + 1 \<and> pool s2 k = Some c \<and>
           promise_state s2 (Awaiting c) = Yields c \<and> getEntry k s2 = (Resolved c, s2) \<and>
           (\<forall>t\<in>callers k tr1 \<union> callers k tr2. uses s2 t k c)"
    if run2: "pool_run (CreateSettles c True # tr2) s1 = Some s2"
      and nt2: "\<forall>ev\<in>set tr2. \<not> teardown k ev" for tr2 s2
  proof -
    from run2 obtain s1' where s1': "pool_step (CreateSettles c True) s1 = Some s1'"
      "pool_run tr2 s1' = Some s2" by (auto split: option.splits)
    have i1': "pool_inv s1'" by (rule pool_inv_step [OF i1 s1'(1)])
    have k1': "key_inv k s1'" by (rule key_inv_step [OF i1 k1 s1'(1)]) simp
    have "cached_state k (factory_calls k s1) c (callers k tr1) s1'"
      by (rule settle_to_cached [OF i1 c(1,2,4) s1'(1)])
    from cached_run [OF i1' k1' this s1'(2) nt2]
    have cs: "pool s2 k = Some c" "factory_calls k s2 = factory_calls k s1"
      "\<forall>t\<in>callers k tr1 \<union> callers k tr2. uses s2 t k c"
      by (simp_all add: cached_state_def)
    have "pool_inv s2" by (rule pool_inv_run [OF i1' s1'(2)])
    then have "table_inv s2" by (simp add: pool_inv_def)
    from table_invD(2) [OF this cs(1)] have "promise_state s2 (Awaiting c) = Yields c"
      by (simp add: promise_state_def made_def)
    moreover have "getEntry k s2 = (Resolved c, s2)" using cs(1) by (simp add: getEntry_def)
    ultimately show ?thesis using cs c(3) by simp
  qed
  from c un after show ?thesis by blast
qed

lemma finally_releases:
  assumes inv: "gate_inv s" and cb: "in_callback s t k e"
  shows "\<exists>sem s'. vm_entries s e = Some sem \<and> count sem = 0 \<and>
           withVm_finally t r s = Some s' \<and>
           tasks s' t = Some \<lparr> tkey = k, tpc = Done r \<rparr> \<and>
           (queue sem = [] \<longrightarrow> vm_entries s' e = Some (sem\<lparr> count := 1 \<rparr>)) \<and>
           (\<forall>n rest. queue sem = n # rest \<longrightarrow>
              vm_entries s' e = Some (sem\<lparr> queue := rest \<rparr>) \<and> waits s e n \<and> holds s' e n)"
proof -
  from cb have tk: "tasks s t = Some \<lparr> tkey = k, tpc = InCallback e \<rparr>"
    by (simp add: in_callback_def)
  then have ht: "holds s e t" by (simp add: holds_def)
  from gate_invD(2) [OF inv ht] obtain sem where sem: "vm_entries s e = Some sem" by auto
  note ok = sem_okD [OF gate_invD(1) [OF inv sem]]
  have c0: "count sem = 0" using ok(1) ok(2) [of t] ht by (cases "count sem = 1") auto
  show ?thesis
  proof (cases "queue sem")
    case Nil
    then have rel: "release sem = (None, sem\<lparr> count := 1 \<rparr>)" by (simp add: release_def c0)
    define s' where "s' = set_pc t (Done r) (s\<lparr> vm_entries := (vm_entries s)(e \<mapsto> sem\<lparr> count := 1 \<rparr>) \<rparr>)"
    have "withVm_finally t r s = Some s'"
      by (simp add: withVm_finally_def tk sem rel s'_def)
    moreover have "tasks s' t = Some \<lparr> tkey = k, tpc = Done r \<rparr>"
      by (simp add: s'_def tasks_set_pc tk)
    moreover have "vm_entries s' e = Some (sem\<lparr> count := 1 \<rparr>)" by (simp add: s'_def)
    ultimately show ?thesis using sem c0 Nil by auto
  next
    case (Cons n rest)
    then have rel: "release sem = (Some n, sem\<lparr> queue := rest \<rparr>)" by (simp add: release_def)
    have wn: "waits s e n" using ok(7) [of n] by (simp add: Cons)
    then obtain tkn where tkn: "tasks s n = Some tkn" "tpc tkn = AwaitAcquire e Queued"
      by (auto simp: waits_def split: option.splits)
    have nt: "n \<noteq> t" using tkn tk by auto
    define s1 where "s1 = s\<lparr> vm_entries := (vm_entries s)(e \<mapsto> sem\<lparr> queue := rest \<rparr>) \<rparr>"
    define s2 where "s2 = set_pc n (AwaitAcquire e Granted) s1"
    define s' where "s' = set_pc t (Done r) s2"
    have "withVm_finally t r s = Some s'"
      by (simp add: withVm_finally_def tk sem rel s'_def s2_def s1_def)
    moreover have t2: "tasks s2 t = Some \<lparr> tkey = k, tpc = InCallback e \<rparr>"
      using nt tk by (simp add: s2_def set_pc_other s1_def)
    then have "tasks s' t = Some \<lparr> tkey = k, tpc = Done r \<rparr>"
      by (simp add: s'_def set_pc_self)
    moreover have "vm_entries s' e = Some (sem\<lparr> queue := rest \<rparr>)"
      by (simp add: s'_def s2_def s1_def)
    moreover have "tasks s' n = Some (tkn\<lparr> tpc := AwaitAcquire e Granted \<rparr>)"
      using nt tkn by (simp add: s'_def set_pc_other s2_def set_pc_self s1_def)
    then have "holds s' e n" by (simp add: holds_def)
    ultimately show ?thesis using sem c0 Cons wn by auto
  qed
qed

text \<open>
  Claim C9 as stated fails when the key is torn down while a creation for it is in flight:
  the next \<^verbatim>\<open>withVm\<close> starts a second creation, both creations succeed, and the two
  invocations go through the gates of two different entries. Both are then inside their
  callbacks for the same key at the same time.
\<close>

theorem teardown_breaks_mutual_exclusion:
  "pool_run [Call 0 ''vm'', CloseVm ''vm'', Call 1 ''vm'', CreateSettles 0 True,
             CreateSettles 1 True, GotEntry 0, GotEntry 1, Acquired 0, Acquired 1]
     fixture_init \<noteq> None \<and>
   in_callback (the (pool_run [Call 0 ''vm'', CloseVm ''vm'', Call 1 ''vm'', CreateSettles 0 True,
     CreateSettles 1 True, GotEntry 0, GotEntry 1, Acquired 0, Acquired 1] fixture_init))
     0 ''vm'' 0 \<and>
   in_callback (the (pool_run [Call 0 ''vm'', CloseVm ''vm'', Call 1 ''vm'', CreateSettles 0 True,
     CreateSettles 1 True, GotEntry 0, GotEntry 1, Acquired 0, Acquired 1] fixture_init))
     1 ''vm'' 1"
  by (simp add: pool_eval closeVm_def in_callback_def)

text \<open>
  Claim C9, as amended. In every state the pool can reach: two invocations that are inside
  their callbacks with the same entry are the same invocation, and, for a key that has been
  torn down only while it was at rest, two invocations for that key that are inside their
  callbacks are the same invocation. For an invocation inside its callback, the step that
  ends the callback is enabled for either outcome (returned or thrown) and releases the
  gate: with no waiter the count goes back to 1, otherwise the first waiter holds the gate
  afterwards. A gate that nobody holds has count 1 and no waiters, so the next \<^verbatim>\<open>acquire\<close> is
  granted at once, and every invocation that waits is in the queue.
\<close>

theorem withVm_mutual_exclusion:
  assumes "pool_run tr fixture_init = Some s"
  shows
    "(in_callback s t1 k1 e \<and> in_callback s t2 k2 e \<longrightarrow> t1 = t2) \<and>
     (teardowns_at_rest k tr fixture_init \<and> in_callback s t1 k e1 \<and> in_callback s t2 k e2 \<longrightarrow>
        t1 = t2) \<and>
     (in_callback s t k e \<longrightarrow>
        (\<forall>r. \<exists>sem s'. vm_entries s e = Some sem \<and> count sem = 0 \<and>
           pool_step (CallbackSettles t r) s = Some s' \<and>
           tasks s' t = Some \<lparr> tkey = k, tpc = Done r \<rparr> \<and>
           (queue sem = [] \<longrightarrow> vm_entries s' e = Some (sem\<lparr> count := 1 \<rparr>)) \<and>
           (\<forall>n rest. queue sem = n # rest \<longrightarrow>
              vm_entries s' e = Some (sem\<lparr> queue := rest \<rparr>) \<and> waits s e n \<and> holds s' e n))) \<and>
     (vm_entries s e = Some sem \<and> (\<forall>t. \<not> holds s e t) \<longrightarrow>
        count sem = 1 \<and> queue sem = [] \<and> fst (acquire t' sem) = Granted) \<and>
     (vm_entries s e = Some sem \<and> waits s e t \<longrightarrow> t \<in> set (queue sem))"
proof -
  have inv: "pool_inv s" by (rule pool_inv_run [OF pool_inv_init assms])
  then have ginv: "gate_inv s" and tinv: "table_inv s" by (simp_all add: pool_inv_def)
  have excl: "t1 = t2" if "in_callback s t1 k1 e" "in_callback s t2 k2 e" for t1 t2 k1 k2 e
  proof -
    from that have h: "holds s e t1" "holds s e t2" by (simp_all add: in_callback_def holds_def)
    from gate_invD(2) [OF ginv h(1)] obtain sem where "vm_entries s e = Some sem" by auto
    from sem_okD(5) [OF gate_invD(1) [OF ginv this] h] show ?thesis .
  qed
  have per_key: "t1 = t2"
    if nt: "teardowns_at_rest k tr fixture_init"
      and cb: "in_callback s t1 k e1" "in_callback s t2 k e2"
    for t1 t2 e1 e2
  proof -
    have kinv: "key_inv k s"
      by (rule key_inv_run_rest [OF pool_inv_init key_inv_init assms nt])
    from cb have "current s k (InCallback e1)" "current s k (InCallback e2)"
      using key_inv_task [OF kinv, of t1] key_inv_task [OF kinv, of t2]
      by (auto simp: in_callback_def)
    then have "e1 = e2" by (simp add: current_def)
    with cb excl show ?thesis by blast
  qed
  have rel: "\<exists>sem s'. vm_entries s e = Some sem \<and> count sem = 0 \<and>
           pool_step (CallbackSettles t r) s = Some s' \<and>
           tasks s' t = Some \<lparr> tkey = k, tpc = Done r \<rparr> \<and>
           (queue sem = [] \<longrightarrow> vm_entries s' e = Some (sem\<lparr> count := 1 \<rparr>)) \<and>
           (\<forall>n rest. queue sem = n # rest \<longrightarrow>
              vm_entries s' e = Some (sem\<lparr> queue := rest \<rparr>) \<and> waits s e n \<and> holds s' e n)"
    if "in_callback s t k e" for r
    using finally_releases [OF ginv that, of r] by simp
  have free: "count sem = 1 \<and> queue sem = [] \<and> fst (acquire t' sem) = Granted"
    if "vm_entries s e = Some sem" "\<forall>t. \<not> holds s e t"
  proof -
    note ok = sem_okD [OF gate_invD(1) [OF ginv that(1)]]
    from ok(1) ok(4) that(2) have "count sem = 1" by (cases "count sem = 0") auto
    with ok(3) show ?thesis by (simp add: acquire_def)
  qed
  have queued: "t \<in> set (queue sem)" if "vm_entries s e = Some sem" "waits s e t"
    using sem_okD(7) [OF gate_invD(1) [OF ginv that(1)], of t] that(2) by simp
  from excl per_key rel free queued show ?thesis by blast
qed

theorem withVm_mutual_exclusion_witness:
  "pool_run [Call 9 ''vm'', CreateSettles 0 True, GotEntry 9, Acquired 9, CallbackSettles 9 Completed,
     CloseVm ''vm'', Call 0 ''vm'', Call 1 ''vm'', CreateSettles 1 True, GotEntry 0, GotEntry 1,
     Acquired 0] fixture_init \<noteq> None \<and>
   teardowns_at_rest ''vm'' [Call 9 ''vm'', CreateSettles 0 True, GotEntry 9, Acquired 9, CallbackSettles 9 Completed,
     CloseVm ''vm'', Call 0 ''vm'', Call 1 ''vm'', CreateSettles 1 True, GotEntry 0, GotEntry 1,
     Acquired 0] fixture_init \<and>
   in_callback (the (pool_run [Call 9 ''vm'', CreateSettles 0 True, GotEntry 9, Acquired 9, CallbackSettles 9 Completed,
     CloseVm ''vm'', Call 0 ''vm'', Call 1 ''vm'', CreateSettles 1 True, GotEntry 0, GotEntry 1,
     Acquired 0] fixture_init)) 0 ''vm'' 1 \<and>
   waits (the (pool_run [Call 9 ''vm'', CreateSettles 0 True, GotEntry 9, Acquired 9, CallbackSettles 9 Completed,
     CloseVm ''vm'', Call 0 ''vm'', Call 1 ''vm'', CreateSettles 1 True, GotEntry 0, GotEntry 1,
     Acquired 0] fixture_init)) 1 1 \<and>
   pool_step (Acquired 1) (the (pool_run [Call 9 ''vm'', CreateSettles 0 True, GotEntry 9, Acquired 9, CallbackSettles 9 Completed,
     CloseVm ''vm'', Call 0 ''vm'', Call 1 ''vm'', CreateSettles 1 True, GotEntry 0, GotEntry 1,
     Acquired 0] fixture_init)) = None \<and>
   (\<exists>s'. pool_run [Call 9 ''vm'', CreateSettles 0 True, GotEntry 9, Acquired 9, CallbackSettles 9 Completed,
     CloseVm ''vm'', Call 0 ''vm'', Call 1 ''vm'', CreateSettles 1 True, GotEntry 0, GotEntry 1,
     Acquired 0, CallbackSettles 0 Raised, Acquired 1] fixture_init = Some s' \<and>
         tasks s' 0 = Some \<lparr> tkey = ''vm'', tpc = Done Raised \<rparr> \<and>
         in_callback s' 1 ''vm'' 1)"
  using withVm_mutual_exclusion [of "[Call 9 ''vm'', CreateSettles 0 True, GotEntry 9, Acquired 9, CallbackSettles 9 Completed,
     CloseVm ''vm'', Call 0 ''vm'', Call 1 ''vm'', CreateSettles 1 True, GotEntry 0, GotEntry 1,
     Acquired 0]"
          "the (pool_run [Call 9 ''vm'', CreateSettles 0 True, GotEntry 9, Acquired 9, CallbackSettles 9 Completed,
     CloseVm ''vm'', Call 0 ''vm'', Call 1 ''vm'', CreateSettles 1 True, GotEntry 0, GotEntry 1,
     Acquired 0] fixture_init)"
          0 "''vm''" 1 0 "''vm''" "''vm''" 1 1]
  by (simp add: pool_eval closeVm_def at_rest_def in_callback_def waits_def)

theorem single_flight_witness:
  "teardowns_at_rest ''vm'' [Call 9 ''vm'', CreateSettles 0 True, GotEntry 9, Acquired 9, CallbackSettles 9 Completed,
     CloseVm ''vm''] fixture_init \<and>
   factory_calls ''vm'' (the (pool_run [Call 9 ''vm'', CreateSettles 0 True, GotEntry 9, Acquired 9, CallbackSettles 9 Completed,
     CloseVm ''vm''] fixture_init)) = 1 \<and>
   factory_calls ''vm'' (the (pool_run [Call 9 ''vm'', CreateSettles 0 True, GotEntry 9, Acquired 9, CallbackSettles 9 Completed,
     CloseVm ''vm'', Call 0 ''vm'', Call 1 ''other'', Call 2 ''vm'', Call 3 ''vm''] fixture_init)) = 2 \<and>
   awaiting (the (pool_run [Call 9 ''vm'', CreateSettles 0 True, GotEntry 9, Acquired 9, CallbackSettles 9 Completed,
     CloseVm ''vm'', Call 0 ''vm'', Call 1 ''other'', Call 2 ''vm'', Call 3 ''vm''] fixture_init)) 0 ''vm'' 1 \<and>
   awaiting (the (pool_run [Call 9 ''vm'', CreateSettles 0 True, GotEntry 9, Acquired 9, CallbackSettles 9 Completed,
     CloseVm ''vm'', Call 0 ''vm'', Call 1 ''other'', Call 2 ''vm'', Call 3 ''vm''] fixture_init)) 2 ''vm'' 1 \<and>
   awaiting (the (pool_run [Call 9 ''vm'', CreateSettles 0 True, GotEntry 9, Acquired 9, CallbackSettles 9 Completed,
     CloseVm ''vm'', Call 0 ''vm'', Call 1 ''other'', Call 2 ''vm'', Call 3 ''vm''] fixture_init)) 3 ''vm'' 1 \<and>
   (\<exists>s2. pool_run [Call 9 ''vm'', CreateSettles 0 True, GotEntry 9, Acquired 9, CallbackSettles 9 Completed,
     CloseVm ''vm'', Call 0 ''vm'', Call 1 ''other'', Call 2 ''vm'', Call 3 ''vm'',
     CreateSettles 1 True, Call 4 ''vm'', GotEntry 2] fixture_init = Some s2 \<and>
         factory_calls ''vm'' s2 = 2 \<and> pool s2 ''vm'' = Some 1 \<and>
         tasks s2 4 = Some \<lparr> tkey = ''vm'', tpc = AwaitEntry (Resolved 1) \<rparr> \<and>
         tasks s2 2 = Some \<lparr> tkey = ''vm'', tpc = AwaitAcquire 1 Granted \<rparr>)"
  using single_flight [of "[Call 9 ''vm'', CreateSettles 0 True, GotEntry 9, Acquired 9, CallbackSettles 9 Completed,
     CloseVm ''vm'']"
          "the (pool_run [Call 9 ''vm'', CreateSettles 0 True, GotEntry 9, Acquired 9, CallbackSettles 9 Completed,
     CloseVm ''vm''] fixture_init)" "''vm''"
          "[Call 0 ''vm'', Call 1 ''other'', Call 2 ''vm'', Call 3 ''vm'']"
          "the (pool_run [Call 9 ''vm'', CreateSettles 0 True, GotEntry 9, Acquired 9, CallbackSettles 9 Completed,
     CloseVm ''vm'', Call 0 ''vm'', Call 1 ''other'', Call 2 ''vm'', Call 3 ''vm''] fixture_init)"]
  by (simp add: pool_eval closeVm_def at_rest_def awaiting_def factory_calls_def
        still_in_flight_def nth_Cons' less_Suc_eq)

end
